theory Spec2Isabelle
  imports Main
begin

section \<open>Text primitives\<close>

text \<open>
  Python's \<^verbatim>\<open>str\<close> is modelled as \<^typ>\<open>string\<close>, a character being a code point
  below 256: ASCII and the Latin-1 supplement, which has the accented letters of French.
  The primitives below are the built-in string methods the scraper calls, and their
  tables are those of Python on this range.
\<close>

text \<open>
  The characters that \<^verbatim>\<open>str.strip\<close>, \<^verbatim>\<open>str.isspace\<close> and the pattern \<^verbatim>\<open>\s\<close>
  take for white space; the last two are the next-line control and the no-break space.
\<close>

definition whitespace :: "char list" where
  "whitespace = [CHR 0x09, CHR 0x0A, CHR 0x0B, CHR 0x0C, CHR 0x0D,
                 CHR 0x1C, CHR 0x1D, CHR 0x1E, CHR 0x1F, CHR '' '',
                 CHR 0x85, CHR 0xA0]"

definition is_space :: "char \<Rightarrow> bool" where
  "is_space c = (c \<in> set whitespace)"

definition is_digit :: "char \<Rightarrow> bool" where
  "is_digit c = (c \<in> set ''0123456789'')"

text \<open>
  The letters that have both cases in the range, in the same order in both tables: the
  26 letters of ASCII and the 30 accented letters from \<^verbatim>\<open>U+00C0\<close> to \<^verbatim>\<open>U+00DE\<close>
  (the multiplication sign apart) and from \<^verbatim>\<open>U+00E0\<close> to \<^verbatim>\<open>U+00FE\<close> (the division
  sign apart).
\<close>

definition upper_letters :: string where
  "upper_letters = ''ABCDEFGHIJKLMNOPQRSTUVWXYZ'' @
    [CHR 0xC0, CHR 0xC1, CHR 0xC2, CHR 0xC3, CHR 0xC4, CHR 0xC5, CHR 0xC6, CHR 0xC7,
     CHR 0xC8, CHR 0xC9, CHR 0xCA, CHR 0xCB, CHR 0xCC, CHR 0xCD, CHR 0xCE, CHR 0xCF,
     CHR 0xD0, CHR 0xD1, CHR 0xD2, CHR 0xD3, CHR 0xD4, CHR 0xD5, CHR 0xD6, CHR 0xD8,
     CHR 0xD9, CHR 0xDA, CHR 0xDB, CHR 0xDC, CHR 0xDD, CHR 0xDE]"

definition lower_letters :: string where
  "lower_letters = ''abcdefghijklmnopqrstuvwxyz'' @
    [CHR 0xE0, CHR 0xE1, CHR 0xE2, CHR 0xE3, CHR 0xE4, CHR 0xE5, CHR 0xE6, CHR 0xE7,
     CHR 0xE8, CHR 0xE9, CHR 0xEA, CHR 0xEB, CHR 0xEC, CHR 0xED, CHR 0xEE, CHR 0xEF,
     CHR 0xF0, CHR 0xF1, CHR 0xF2, CHR 0xF3, CHR 0xF4, CHR 0xF5, CHR 0xF6, CHR 0xF8,
     CHR 0xF9, CHR 0xFA, CHR 0xFB, CHR 0xFC, CHR 0xFD, CHR 0xFE]"

definition lower_char :: "char \<Rightarrow> char" where
  "lower_char c = (case map_of (zip upper_letters lower_letters) c of Some l \<Rightarrow> l | None \<Rightarrow> c)"

definition upper_char :: "char \<Rightarrow> char" where
  "upper_char c = (case map_of (zip lower_letters upper_letters) c of Some u \<Rightarrow> u | None \<Rightarrow> c)"

text \<open>\<^verbatim>\<open>s.lower()\<close>\<close>

definition lower :: "string \<Rightarrow> string" where
  "lower s = map lower_char s"

text \<open>
  \<^verbatim>\<open>s.capitalize()\<close>: first character upper-cased, the rest lower-cased. The micro
  sign, the sharp s and the y with diaeresis have their upper-case forms outside the
  range and are left as they are; the scraper capitalises only matches of its date
  patterns and month names, which begin with a digit or an ASCII letter.
\<close>

fun capitalize :: "string \<Rightarrow> string" where
  "capitalize [] = []"
| "capitalize (c # cs) = upper_char c # lower cs"

text \<open>\<^verbatim>\<open>s.strip()\<close>\<close>

definition lstrip :: "string \<Rightarrow> string" where
  "lstrip s = dropWhile is_space s"

definition rstrip :: "string \<Rightarrow> string" where
  "rstrip s = rev (dropWhile is_space (rev s))"

definition strip :: "string \<Rightarrow> string" where
  "strip s = rstrip (lstrip s)"

text \<open>\<^verbatim>\<open>s.startswith(p)\<close>, \<^verbatim>\<open>s.endswith(p)\<close> and \<^verbatim>\<open>sub in s\<close>\<close>

definition startswith :: "string \<Rightarrow> string \<Rightarrow> bool" where
  "startswith s p = (take (length p) s = p)"

definition endswith :: "string \<Rightarrow> string \<Rightarrow> bool" where
  "endswith s p = (length p \<le> length s \<and> drop (length s - length p) s = p)"

fun contains :: "string \<Rightarrow> string \<Rightarrow> bool" where
  "contains [] sub = (sub = [])"
| "contains (c # cs) sub = (startswith (c # cs) sub \<or> contains cs sub)"

section \<open>Text normalisation and search terms\<close>

text \<open>
  \<^verbatim>\<open>unicodedata.normalize('NFKD', text).encode('ASCII', 'ignore').decode('utf-8')\<close>:
  the decomposition leaves ASCII characters alone and splits an accented letter into its
  base letter and a combining mark, and the encoding drops every character that is not
  ASCII. The table gives, for each character of the Latin-1 supplement, the ASCII
  characters of its decomposition; a character that is not in the table has none.
\<close>

definition nfkd_table :: "(char \<times> string) list" where
  "nfkd_table =
    [(CHR 0xA0, '' ''), (CHR 0xA8, '' ''), (CHR 0xAA, ''a''), (CHR 0xAF, '' ''),
     (CHR 0xB2, ''2''), (CHR 0xB3, ''3''), (CHR 0xB4, '' ''), (CHR 0xB8, '' ''),
     (CHR 0xB9, ''1''), (CHR 0xBA, ''o''), (CHR 0xBC, ''14''), (CHR 0xBD, ''12''),
     (CHR 0xBE, ''34''), (CHR 0xC0, ''A''), (CHR 0xC1, ''A''), (CHR 0xC2, ''A''),
     (CHR 0xC3, ''A''), (CHR 0xC4, ''A''), (CHR 0xC5, ''A''), (CHR 0xC7, ''C''),
     (CHR 0xC8, ''E''), (CHR 0xC9, ''E''), (CHR 0xCA, ''E''), (CHR 0xCB, ''E''),
     (CHR 0xCC, ''I''), (CHR 0xCD, ''I''), (CHR 0xCE, ''I''), (CHR 0xCF, ''I''),
     (CHR 0xD1, ''N''), (CHR 0xD2, ''O''), (CHR 0xD3, ''O''), (CHR 0xD4, ''O''),
     (CHR 0xD5, ''O''), (CHR 0xD6, ''O''), (CHR 0xD9, ''U''), (CHR 0xDA, ''U''),
     (CHR 0xDB, ''U''), (CHR 0xDC, ''U''), (CHR 0xDD, ''Y''), (CHR 0xE0, ''a''),
     (CHR 0xE1, ''a''), (CHR 0xE2, ''a''), (CHR 0xE3, ''a''), (CHR 0xE4, ''a''),
     (CHR 0xE5, ''a''), (CHR 0xE7, ''c''), (CHR 0xE8, ''e''), (CHR 0xE9, ''e''),
     (CHR 0xEA, ''e''), (CHR 0xEB, ''e''), (CHR 0xEC, ''i''), (CHR 0xED, ''i''),
     (CHR 0xEE, ''i''), (CHR 0xEF, ''i''), (CHR 0xF1, ''n''), (CHR 0xF2, ''o''),
     (CHR 0xF3, ''o''), (CHR 0xF4, ''o''), (CHR 0xF5, ''o''), (CHR 0xF6, ''o''),
     (CHR 0xF9, ''u''), (CHR 0xFA, ''u''), (CHR 0xFB, ''u''), (CHR 0xFC, ''u''),
     (CHR 0xFD, ''y''), (CHR 0xFF, ''y'')]"

definition nfkd_char :: "char \<Rightarrow> string" where
  "nfkd_char c =
     (if \<not> digit7 c then [c]
      else case map_of nfkd_table c of Some s \<Rightarrow> s | None \<Rightarrow> [])"

definition nfkd_ascii :: "string \<Rightarrow> string" where
  "nfkd_ascii s = concat (map nfkd_char s)"

text \<open>\<^verbatim>\<open>EventScraper._normalize_text\<close>\<close>

definition normalize_text :: "string \<Rightarrow> string" where
  "normalize_text text = (if text = [] then [] else nfkd_ascii (lower text))"

text \<open>
  \<^verbatim>\<open>EventScraper._normalize_search_terms\<close>. The argument \<^verbatim>\<open>None\<close> or an empty
  value is the empty list, and a single string is the one-element list.
\<close>

definition normalize_search_terms_step :: "string \<Rightarrow> string list \<Rightarrow> string list" where
  "normalize_search_terms_step term normalized_terms =
     (let normalized_terms = normalized_terms @ [term];
          normalized = normalize_text term
      in if normalized \<noteq> [] \<and> normalized \<noteq> lower term \<and> normalized \<notin> set normalized_terms
         then normalized_terms @ [normalized]
         else normalized_terms)"

definition normalize_search_terms :: "string list \<Rightarrow> string list" where
  "normalize_search_terms search_terms = fold normalize_search_terms_step search_terms []"

text \<open>
  The term-variant dictionary, in insertion order (the order in which Python iterates
  over \<^verbatim>\<open>items()\<close> and \<^verbatim>\<open>keys()\<close>).
\<close>

type_synonym term_variants = "(string \<times> string list) list"

text \<open>
  \<^verbatim>\<open>EventScraper._add_term_variants\<close>, first branch: variants are present and there
  are no search terms. Every variant that is not blank and not yet listed is appended,
  then every key that is not yet listed.
\<close>

definition add_variant_if_missing :: "string \<Rightarrow> string list \<Rightarrow> string list" where
  "add_variant_if_missing variant search_terms =
     (if strip variant \<noteq> [] \<and> variant \<notin> set search_terms
      then search_terms @ [variant] else search_terms)"

definition add_key_if_missing :: "string \<Rightarrow> string list \<Rightarrow> string list" where
  "add_key_if_missing key search_terms =
     (if key \<notin> set search_terms then search_terms @ [key] else search_terms)"

definition add_variants_of_keys :: "term_variants \<Rightarrow> string list \<Rightarrow> string list" where
  "add_variants_of_keys tv search_terms =
     fold (\<lambda>(key, variants) st. fold add_variant_if_missing variants st) tv search_terms"

definition add_all_variants :: "term_variants \<Rightarrow> string list \<Rightarrow> string list" where
  "add_all_variants tv search_terms =
     fold add_key_if_missing (map fst tv) (add_variants_of_keys tv search_terms)"

text \<open>
  Second part of \<^verbatim>\<open>_add_term_variants\<close>: for each original term, the variants of the
  keys that match it loosely are appended. The list \<^verbatim>\<open>normalized_terms\<close> is computed
  once per matching key, before that key's variants are appended.
\<close>

definition append_new_variants :: "string list \<Rightarrow> string list \<Rightarrow> string list" where
  "append_new_variants variants search_terms =
     (let normalized_terms = map lower search_terms
      in search_terms @ filter (\<lambda>variant. lower variant \<notin> set normalized_terms) variants)"

definition loose_key_match :: "string \<Rightarrow> string \<Rightarrow> string list \<Rightarrow> bool" where
  "loose_key_match term key variants =
     (let key_lower = lower key; term_lower = lower term
      in contains term_lower key_lower \<or> contains key_lower term_lower \<or>
         (\<exists>v \<in> set variants. contains term_lower (lower v)) \<or>
         (\<exists>v \<in> set variants. contains (lower v) term_lower))"

definition exact_key_match :: "string \<Rightarrow> string \<Rightarrow> bool" where
  "exact_key_match term key =
     (lower term = lower key \<or> normalize_text term = normalize_text key \<or>
      contains (lower key) (lower term) \<or> contains (lower term) (lower key))"

definition add_variants_for_term :: "term_variants \<Rightarrow> string \<Rightarrow> string list \<Rightarrow> string list" where
  "add_variants_for_term tv term search_terms =
     (if length tv > 0 \<and> term \<notin> fst ` set tv
      then fold (\<lambda>(key, variants) st.
                  if loose_key_match term key variants then append_new_variants variants st else st)
             tv search_terms
      else fold (\<lambda>(key, variants) st.
                  if exact_key_match term key then append_new_variants variants st else st)
             tv search_terms)"

definition add_term_variants :: "term_variants \<Rightarrow> string list \<Rightarrow> string list" where
  "add_term_variants tv search_terms =
     (let original_terms = search_terms
      in if tv \<noteq> [] \<and> original_terms = []
         then add_all_variants tv search_terms
         else fold (add_variants_for_term tv) original_terms search_terms)"

text \<open>
  The search terms of a freshly constructed \<^verbatim>\<open>EventScraper\<close>: the constructor
  normalises the given terms and then adds the variants.
\<close>

definition init_search_terms :: "string list \<Rightarrow> term_variants \<Rightarrow> string list" where
  "init_search_terms search_terms tv = add_term_variants tv (normalize_search_terms search_terms)"

text \<open>
  The opening of \<^verbatim>\<open>EventScraper.find_new_events\<close>: with no search terms and no
  variants the run is refused (\<open>None\<close>); with no search terms but variants, all variants
  and keys become search terms.
\<close>

definition extend_with_variants :: "term_variants \<Rightarrow> string list \<Rightarrow> string list" where
  "extend_with_variants tv search_terms =
     fold (\<lambda>(key, variants) st. add_key_if_missing key (st @ variants)) tv search_terms"

definition run_search_terms :: "term_variants \<Rightarrow> string list \<Rightarrow> string list option" where
  "run_search_terms tv search_terms =
     (if search_terms = [] \<and> tv = [] then None
      else if search_terms = [] \<and> tv \<noteq> [] then Some (extend_with_variants tv search_terms)
      else Some search_terms)"

text \<open>
  The effective term set of a run: the terms the matching loop iterates over when a
  scraper built from \<open>search_terms\<close> and \<open>tv\<close> runs \<^verbatim>\<open>find_new_events\<close>.
  Without terms and variants there is nothing to match against.
\<close>

definition effective_terms :: "string list \<Rightarrow> term_variants \<Rightarrow> string list" where
  "effective_terms search_terms tv =
     (case run_search_terms tv (init_search_terms search_terms tv) of
        None \<Rightarrow> [] | Some terms \<Rightarrow> terms)"


section \<open>Regular expressions\<close>

text \<open>
  The fragment of Python's \<^verbatim>\<open>re\<close> syntax that the scraper's patterns use, with the
  backtracking semantics of the library: \<open>rx_match\<close> lists the positions at which a
  match attempt starting at a given position can end, in the order in which the
  backtracking engine tries them, so that the head of the list is the match the library
  reports. A position is the character before it (if any) and the text after it.
  Literals are compared under \<^verbatim>\<open>re.IGNORECASE\<close>.
\<close>

datatype char_class = Digit | Whitespace | OneOf string

fun in_class :: "char_class \<Rightarrow> char \<Rightarrow> bool" where
  "in_class Digit c = is_digit c"
| "in_class Whitespace c = is_space c"
| "in_class (OneOf cs) c = (c \<in> set cs)"

text \<open>
  Word characters (\<^verbatim>\<open>\w\<close>): letters, digits and the underscore. In the Latin-1
  supplement these are the accented letters and, without a second case in the range, the
  two ordinal indicators, the superscript digits, the micro sign, the three fractions,
  the sharp s and the y with diaeresis; the no-break space, the guillemets and the other
  signs are not.
\<close>

definition caseless_word_chars :: "char list" where
  "caseless_word_chars = [CHR 0xAA, CHR 0xB2, CHR 0xB3, CHR 0xB5, CHR 0xB9, CHR 0xBA,
                          CHR 0xBC, CHR 0xBD, CHR 0xBE, CHR 0xDF, CHR 0xFF]"

definition is_word :: "char \<Rightarrow> bool" where
  "is_word c = (c \<in> set lower_letters \<or> c \<in> set upper_letters \<or> is_digit c \<or> c = CHR ''_'' \<or>
                c \<in> set caseless_word_chars)"

datatype rx =
    Lit string
  | Rep char_class nat nat
  | Plus char_class
  | WordB
  | Cat "rx list"
  | Alt "rx list"
  | Opt rx

type_synonym pos = "char option \<times> string"

fun word_boundary :: "pos \<Rightarrow> bool" where
  "word_boundary (prev, rest) =
     ((case prev of None \<Rightarrow> False | Some c \<Rightarrow> is_word c) \<noteq>
      (case rest of [] \<Rightarrow> False | c # _ \<Rightarrow> is_word c))"

fun lit_match :: "string \<Rightarrow> pos \<Rightarrow> pos option" where
  "lit_match [] p = Some p"
| "lit_match (l # ls) (prev, []) = None"
| "lit_match (l # ls) (prev, c # cs) =
     (if lower_char c = lower_char l then lit_match ls (Some c, cs) else None)"

text \<open>The positions after 0, 1, ... up to \<open>n\<close> characters of a class, shortest first.\<close>

fun class_runs :: "char_class \<Rightarrow> nat \<Rightarrow> pos \<Rightarrow> pos list" where
  "class_runs k 0 p = [p]"
| "class_runs k (Suc n) (prev, []) = [(prev, [])]"
| "class_runs k (Suc n) (prev, c # cs) =
     (prev, c # cs) # (if in_class k c then class_runs k n (Some c, cs) else [])"

fun rx_match :: "rx \<Rightarrow> pos \<Rightarrow> pos list" where
  "rx_match (Lit s) p = (case lit_match s p of None \<Rightarrow> [] | Some q \<Rightarrow> [q])"
| "rx_match (Rep k lo hi) p = rev (drop lo (class_runs k hi p))"
| "rx_match (Plus k) p = rev (drop 1 (class_runs k (length (snd p)) p))"
| "rx_match WordB p = (if word_boundary p then [p] else [])"
| "rx_match (Cat []) p = [p]"
| "rx_match (Cat (r # rs)) p = concat (map (rx_match (Cat rs)) (rx_match r p))"
| "rx_match (Alt rs) p = concat (map (\<lambda>r. rx_match r p) rs)"
| "rx_match (Opt r) p = rx_match r p @ [p]"

text \<open>
  \<^verbatim>\<open>re.search\<close>: the leftmost start position with a match; the result is
  \<^verbatim>\<open>(m.start(), m.group(0))\<close>.
\<close>

fun rx_search_from :: "rx \<Rightarrow> nat \<Rightarrow> pos \<Rightarrow> (nat \<times> string) option" where
  "rx_search_from r i (prev, []) =
     (case rx_match r (prev, []) of [] \<Rightarrow> None | q # _ \<Rightarrow> Some (i, []))"
| "rx_search_from r i (prev, c # cs) =
     (case rx_match r (prev, c # cs) of
        [] \<Rightarrow> rx_search_from r (Suc i) (Some c, cs)
      | q # _ \<Rightarrow> Some (i, take (length (c # cs) - length (snd q)) (c # cs)))"

definition rx_search :: "rx \<Rightarrow> string \<Rightarrow> (nat \<times> string) option" where
  "rx_search r s = rx_search_from r 0 (None, s)"

text \<open>
  \<^verbatim>\<open>re.findall\<close> for a pattern without groups: the matched texts, left to right,
  without overlap. \<open>skip\<close> counts the characters of the last match still to be passed.
\<close>

fun rx_findall_from :: "rx \<Rightarrow> nat \<Rightarrow> pos \<Rightarrow> string list" where
  "rx_findall_from r skip (prev, []) =
     (if skip = 0 then (case rx_match r (prev, []) of [] \<Rightarrow> [] | q # _ \<Rightarrow> [[]]) else [])"
| "rx_findall_from r skip (prev, c # cs) =
     (if skip > 0 then rx_findall_from r (skip - 1) (Some c, cs)
      else (case rx_match r (prev, c # cs) of
              [] \<Rightarrow> rx_findall_from r 0 (Some c, cs)
            | q # _ \<Rightarrow>
                (let n = length (c # cs) - length (snd q)
                 in take n (c # cs) # rx_findall_from r (n - 1) (Some c, cs))))"

definition rx_findall :: "rx \<Rightarrow> string \<Rightarrow> string list" where
  "rx_findall r s = rx_findall_from r 0 (None, s)"

text \<open>\<^verbatim>\<open>re.split\<close> on a one-character pattern.\<close>

fun split_on :: "(char \<Rightarrow> bool) \<Rightarrow> string \<Rightarrow> string list" where
  "split_on sep [] = [[]]"
| "split_on sep (c # cs) =
     (case split_on sep cs of
        [] \<Rightarrow> (if sep c then [[], []] else [[c]])
      | part # parts \<Rightarrow> (if sep c then [] # part # parts else (c # part) # parts))"

section \<open>More string methods\<close>

text \<open>
  \<^verbatim>\<open>s.replace(old, new)\<close> and \<^verbatim>\<open>s.replace(old, new, 1)\<close>, for a non-empty
  \<open>old\<close> (the scraper never replaces the empty string).
\<close>

function replace :: "string \<Rightarrow> string \<Rightarrow> string \<Rightarrow> string" where
  "replace old new [] = []"
| "replace old new (c # cs) =
     (if old \<noteq> [] \<and> startswith (c # cs) old
      then new @ replace old new (drop (length old) (c # cs))
      else c # replace old new cs)"
  by pat_completeness auto
termination
  by (relation "measure (\<lambda>(old, new, s). length s)") auto

fun replace_first :: "string \<Rightarrow> string \<Rightarrow> string \<Rightarrow> string" where
  "replace_first old new [] = []"
| "replace_first old new (c # cs) =
     (if old \<noteq> [] \<and> startswith (c # cs) old
      then new @ drop (length old) (c # cs)
      else c # replace_first old new cs)"

text \<open>\<^verbatim>\<open>s.find(sub)\<close> and \<^verbatim>\<open>s.find(sub, start, end)\<close>: the index, or \<open>-1\<close>.\<close>

fun find_index :: "string \<Rightarrow> string \<Rightarrow> nat option" where
  "find_index sub [] = (if sub = [] then Some 0 else None)"
| "find_index sub (c # cs) =
     (if startswith (c # cs) sub then Some 0 else map_option Suc (find_index sub cs))"

definition py_find :: "string \<Rightarrow> string \<Rightarrow> int" where
  "py_find s sub = (case find_index sub s of None \<Rightarrow> - 1 | Some i \<Rightarrow> int i)"

definition py_find_in :: "string \<Rightarrow> string \<Rightarrow> nat \<Rightarrow> nat \<Rightarrow> int" where
  "py_find_in s sub start end =
     (case find_index sub (take (end - start) (drop start s)) of
        None \<Rightarrow> - 1 | Some i \<Rightarrow> int (start + i))"

text \<open>\<^verbatim>\<open>s[start:end]\<close> for indices inside the string.\<close>

definition slice :: "string \<Rightarrow> nat \<Rightarrow> nat \<Rightarrow> string" where
  "slice s start end = take (end - start) (drop start s)"

text \<open>\<^verbatim>\<open>int(s)\<close> on a string of decimal digits; anything else raises.\<close>

datatype error = ValueError | TransportError

definition digit_value :: "char \<Rightarrow> nat" where
  "digit_value c =
     (case map_of (zip ''0123456789'' [0, 1, 2, 3, 4, 5, 6, 7, 8, 9]) c of
        Some d \<Rightarrow> d | None \<Rightarrow> 0)"

definition py_int :: "string \<Rightarrow> error + int" where
  "py_int s =
     (if s \<noteq> [] \<and> (\<forall>c \<in> set s. is_digit c)
      then Inr (int (foldl (\<lambda>n c. 10 * n + digit_value c) 0 s))
      else Inl ValueError)"

section \<open>Date extraction\<close>

definition weekdays_fr :: rx where
  "weekdays_fr = Alt [Lit ''lundi'', Lit ''mardi'', Lit ''mercredi'', Lit ''jeudi'',
                      Lit ''vendredi'', Lit ''samedi'', Lit ''dimanche'']"

definition weekdays_en :: rx where
  "weekdays_en = Alt [Lit ''monday'', Lit ''tuesday'', Lit ''wednesday'', Lit ''thursday'',
                      Lit ''friday'', Lit ''saturday'', Lit ''sunday'']"

text \<open>The accented letters of the French month names are the code points E9 and FB.\<close>

definition month_names_fr :: "string list" where
  "month_names_fr = [''janvier'', ''f'' @ [CHR 0xE9] @ ''vrier'', ''mars'', ''avril'', ''mai'',
                     ''juin'', ''juillet'', ''ao'' @ [CHR 0xFB] @ ''t'', ''septembre'', ''octobre'',
                     ''novembre'', ''d'' @ [CHR 0xE9] @ ''cembre'']"

definition month_names_en :: "string list" where
  "month_names_en = [''january'', ''february'', ''march'', ''april'', ''may'', ''june'', ''july'',
                     ''august'', ''september'', ''october'', ''november'', ''december'']"

definition months_fr :: rx where
  "months_fr = Alt (map Lit month_names_fr)"

definition months_en :: rx where
  "months_en = Alt (map Lit month_names_en)"

abbreviation (input) sp :: rx where
  "sp \<equiv> Plus Whitespace"

abbreviation (input) d12 :: rx where
  "d12 \<equiv> Rep Digit 1 2"

abbreviation (input) d24 :: rx where
  "d24 \<equiv> Rep Digit 2 4"

definition day_patterns :: "rx list" where
  "day_patterns =
     [Cat [WordB, weekdays_fr, sp, d12, sp, months_fr, WordB],
      Cat [WordB, weekdays_en, sp, d12, sp, months_en, WordB],
      Cat [WordB, weekdays_fr, sp, d12, Lit ''/'', d12, WordB]]"

definition date_patterns :: "rx list" where
  "date_patterns =
     [Cat [WordB, d12, sp, months_fr, Opt (Cat [sp, d24]), WordB],
      Cat [WordB, d12, sp, months_en, Opt (Cat [sp, d24]), WordB],
      Cat [Lit ''du'', sp, d12, sp, Lit ''au'', sp, d12, sp, months_fr],
      Cat [Lit ''le'', sp, d12, sp, months_fr],
      Cat [WordB, months_fr, sp, d12, Opt (Cat [Opt (Lit '',''), sp, d24]), WordB],
      Cat [WordB, months_en, sp, d12, Opt (Cat [Opt (Lit '',''), sp, d24]), WordB]]"

definition numeric_patterns :: "rx list" where
  "numeric_patterns =
     [Cat [WordB, d12, Rep (OneOf ''./'') 1 1, d12, Rep (OneOf ''./'') 1 1, d24, WordB],
      Cat [WordB, d12, Rep (OneOf ''-'') 1 1, d12, Rep (OneOf ''-'') 1 1, d24, WordB]]"

definition month_pattern :: rx where
  "month_pattern = Cat [WordB, Alt (map Lit (month_names_fr @ month_names_en)), WordB]"

definition number_pattern :: rx where
  "number_pattern = Cat [WordB, d12, WordB]"

text \<open>The first pattern of a list that matches somewhere gives the result.\<close>

fun first_match :: "rx list \<Rightarrow> string \<Rightarrow> string option" where
  "first_match [] s = None"
| "first_match (pattern # patterns) s =
     (case rx_search pattern s of
        Some (start, matched) \<Rightarrow> Some matched
      | None \<Rightarrow> first_match patterns s)"

text \<open>
  The validation of a numeric candidate: both of the first two parts are read as
  numbers, and one of the two day/month orderings has to hold.
\<close>

definition valid_day_month :: "int \<Rightarrow> int \<Rightarrow> bool" where
  "valid_day_month a b =
     ((1 \<le> a \<and> a \<le> 31 \<and> 1 \<le> b \<and> b \<le> 12) \<or> (1 \<le> b \<and> b \<le> 31 \<and> 1 \<le> a \<and> a \<le> 12))"

definition parts_valid :: "string list \<Rightarrow> error + bool" where
  "parts_valid parts =
     (case parts of
        p0 # p1 # _ \<Rightarrow>
          (case py_int p0 of
             Inl e \<Rightarrow> Inl e
           | Inr a \<Rightarrow> (case py_int p1 of Inl e \<Rightarrow> Inl e | Inr b \<Rightarrow> Inr (valid_day_month a b)))
      | _ \<Rightarrow> Inr False)"

definition date_separator :: "char \<Rightarrow> bool" where
  "date_separator c = (c \<in> set ''./-'')"

fun numeric_date :: "rx list \<Rightarrow> string \<Rightarrow> error + string option" where
  "numeric_date [] content = Inr None"
| "numeric_date (pattern # patterns) content =
     (case rx_search pattern content of
        None \<Rightarrow> numeric_date patterns content
      | Some (start, date_str) \<Rightarrow>
          (let parts = split_on date_separator date_str
           in if length parts = 3 then
                (case parts_valid parts of
                   Inl e \<Rightarrow> Inl e
                 | Inr ok \<Rightarrow> if ok then Inr (Some date_str) else numeric_date patterns content)
              else if length parts = 2 then
                (case parts_valid parts of
                   Inl e \<Rightarrow> Inl e
                 | Inr ok \<Rightarrow> if ok then Inr (Some date_str) else numeric_date patterns content)
              else numeric_date patterns content))"

text \<open>
  The last resort: a month name with a day number within 20 characters of it. The first
  number of the window is read; a number in range decides the result, and a number out
  of range is passed over.
\<close>

fun nearby_day :: "string list \<Rightarrow> string \<Rightarrow> string \<Rightarrow> int \<Rightarrow> nat \<Rightarrow> nat \<Rightarrow> error + string option" where
  "nearby_day [] month content_lower month_idx context_start context_end = Inr None"
| "nearby_day (number # numbers) month content_lower month_idx context_start context_end =
     (case py_int number of
        Inl e \<Rightarrow> Inl e
      | Inr n \<Rightarrow>
          if 1 \<le> n \<and> n \<le> 31 then
            (if month_idx < py_find_in content_lower number context_start context_end
             then Inr (Some (capitalize month @ '' '' @ number))
             else Inr (Some (number @ '' '' @ capitalize month)))
          else nearby_day numbers month content_lower month_idx context_start context_end)"

definition month_fallback :: "string \<Rightarrow> string \<Rightarrow> error + string" where
  "month_fallback content content_lower =
     (case rx_search month_pattern content_lower of
        None \<Rightarrow> Inr []
      | Some (start, month) \<Rightarrow>
          (let month_idx = py_find content_lower (lower month);
               context_start = nat (max 0 (month_idx - 20));
               context_end = nat (min (int (length content)) (month_idx + int (length month) + 20));
               context = slice content context_start context_end;
               numbers = rx_findall number_pattern context
           in case nearby_day numbers month content_lower month_idx context_start context_end of
                Inl e \<Rightarrow> Inl e
              | Inr (Some date) \<Rightarrow> Inr date
              | Inr None \<Rightarrow> Inr (capitalize month)))"

text \<open>\<^verbatim>\<open>EventScraper._extract_date\<close>\<close>

definition extract_date :: "string \<Rightarrow> error + string" where
  "extract_date event_content =
     (let content = strip (replace ''&nbsp;'' '' '' event_content);
          content_lower = lower content
      in case first_match day_patterns content_lower of
           Some matched \<Rightarrow> Inr (capitalize matched)
         | None \<Rightarrow>
             (case first_match date_patterns content_lower of
                Some matched \<Rightarrow> Inr (capitalize matched)
              | None \<Rightarrow>
                  (case numeric_date numeric_patterns content of
                     Inl e \<Rightarrow> Inl e
                   | Inr (Some date_str) \<Rightarrow> Inr date_str
                   | Inr None \<Rightarrow> month_fallback content content_lower)))"


text \<open>
  For the proofs about dates: the characters a numeric date is made of, and the patterns
  every match of which has another character (a literal with such a character, in every
  alternative).
\<close>

definition plain :: "char \<Rightarrow> bool" where
  "plain c \<longleftrightarrow> is_digit c \<or> date_separator c"

fun has_word :: "rx \<Rightarrow> bool" where
  "has_word (Lit s) = (\<exists>l \<in> set s. \<not> plain l \<and> l \<notin> set upper_letters)"
| "has_word (Cat rs) = (\<exists>r \<in> set rs. has_word r)"
| "has_word (Alt rs) = (\<forall>r \<in> set rs. has_word r)"
| "has_word (Rep k lo hi) = False"
| "has_word (Plus k) = False"
| "has_word WordB = False"
| "has_word (Opt r) = False"

section \<open>Parsed HTML\<close>

text \<open>
  The tree that the HTML parser produces: text nodes and elements with a tag name, the
  attributes and the children. The functions below are the queries of the parse tree that
  the scraper uses; a tree is given by its list of top-level nodes, and every query lists
  elements in document order.
\<close>

datatype node = Text string | Element string "(string \<times> string) list" "node list"

fun tag :: "node \<Rightarrow> string" where
  "tag (Text s) = []"
| "tag (Element name attrs children) = name"

fun attrs :: "node \<Rightarrow> (string \<times> string) list" where
  "attrs (Text s) = []"
| "attrs (Element name as children) = as"

fun children :: "node \<Rightarrow> node list" where
  "children (Text s) = []"
| "children (Element name as cs) = cs"

text \<open>\<^verbatim>\<open>elem[name]\<close> where the attribute is present\<close>

definition attr :: "node \<Rightarrow> string \<Rightarrow> string option" where
  "attr e name = map_of (attrs e) name"

fun elements :: "node \<Rightarrow> node list" and elements_list :: "node list \<Rightarrow> node list" where
  "elements (Text s) = []"
| "elements (Element name as cs) = Element name as cs # elements_list cs"
| "elements_list [] = []"
| "elements_list (n # ns) = elements n @ elements_list ns"

text \<open>\<^verbatim>\<open>get_text()\<close>, and \<^verbatim>\<open>elem.text\<close>\<close>

fun node_text :: "node \<Rightarrow> string" and get_text :: "node list \<Rightarrow> string" where
  "node_text (Text s) = s"
| "node_text (Element name as cs) = get_text cs"
| "get_text [] = []"
| "get_text (n # ns) = node_text n @ get_text ns"

text \<open>\<^verbatim>\<open>find(name)\<close>, \<^verbatim>\<open>find_all(name)\<close>, \<^verbatim>\<open>find_all([names])\<close>, \<^verbatim>\<open>find_all(name, href=True)\<close>\<close>

definition find_all :: "string list \<Rightarrow> node list \<Rightarrow> node list" where
  "find_all names soup = filter (\<lambda>e. tag e \<in> set names) (elements_list soup)"

definition find_tag :: "string \<Rightarrow> node list \<Rightarrow> node option" where
  "find_tag name soup = List.find (\<lambda>e. tag e = name) (elements_list soup)"

definition find_all_with :: "string \<Rightarrow> string \<Rightarrow> node list \<Rightarrow> node list" where
  "find_all_with name attr_name soup =
     filter (\<lambda>e. tag e = name \<and> attr e attr_name \<noteq> None) (elements_list soup)"

text \<open>The values of a multi-valued attribute such as \<^verbatim>\<open>class\<close> or \<^verbatim>\<open>rel\<close>.\<close>

definition attr_values :: "node \<Rightarrow> string \<Rightarrow> string list" where
  "attr_values e name =
     (case attr e name of None \<Rightarrow> [] | Some v \<Rightarrow> filter (\<lambda>w. w \<noteq> []) (split_on is_space v))"

text \<open>\<^verbatim>\<open>find(name, class_=c)\<close> and \<^verbatim>\<open>find(name, rel=r)\<close>\<close>

definition find_tag_with_value :: "string \<Rightarrow> string \<Rightarrow> string \<Rightarrow> node list \<Rightarrow> node option" where
  "find_tag_with_value name attr_name v soup =
     List.find (\<lambda>e. tag e = name \<and> v \<in> set (attr_values e attr_name)) (elements_list soup)"

text \<open>\<^verbatim>\<open>select(selector)\<close> for the selectors \<^verbatim>\<open>tag.class\<close> and \<^verbatim>\<open>.class\<close>\<close>

datatype selector = TagClass string string | Class string

fun selects :: "selector \<Rightarrow> node \<Rightarrow> bool" where
  "selects (TagClass name c) e = (tag e = name \<and> c \<in> set (attr_values e ''class''))"
| "selects (Class c) e = (tag e \<noteq> [] \<and> c \<in> set (attr_values e ''class''))"

definition select :: "selector \<Rightarrow> node list \<Rightarrow> node list" where
  "select sel soup = filter (selects sel) (elements_list soup)"

section \<open>The libraries around the scraper\<close>

text \<open>
  What the scraper takes from its libraries and its environment: the HTML parser and the
  serialisation of a parsed element, the MD5 digest in hexadecimal, the HTTP client
  (\<open>None\<close> when the request fails, times out or is answered with an error status),
  the clock as formatted by \<^verbatim>\<open>strftime\<close>, read for the \<open>n\<close>-th time, and what
  happens when the data file is written.
\<close>

datatype write_outcome = Written | NotOpened | Interrupted

record library =
  html_parser :: "string \<Rightarrow> node list"
  to_html :: "node \<Rightarrow> string"
  md5_hexdigest :: "string \<Rightarrow> string"
  http_get :: "string \<Rightarrow> string option"
  clock :: "nat \<Rightarrow> string"
  disk :: write_outcome

section \<open>Events and the scraper\<close>

record event =
  title :: string
  original_title :: string
  link :: string
  info :: string
  date :: string
  found_at :: string
  matching_terms :: "string list"
  event_id :: string

record processed =
  processed_at :: string
  notified :: bool
  notified_at :: "string option"

type_synonym store = "string \<rightharpoonup> processed"

record scraper =
  url :: string
  max_pages :: int
  exact_matching :: bool
  search_terms :: "string list"
  term_variants :: term_variants
  processed_events :: store

text \<open>\<^verbatim>\<open>EventScraper._generate_event_id\<close>\<close>

definition generate_event_id :: "library \<Rightarrow> event \<Rightarrow> string" where
  "generate_event_id lib ev = md5_hexdigest lib (title ev @ ''-'' @ date ev @ ''-'' @ link ev)"

section \<open>Processing one event element\<close>

text \<open>The marker \<^verbatim>\<open>class="event"\<close> looked for in the raw HTML.\<close>

definition class_event_marker :: string where
  "class_event_marker = ''class='' @ [CHR 0x22] @ ''event'' @ [CHR 0x22]"

definition newline :: char where
  "newline = CHR 0x0A"

text \<open>
  The title element. For an element of the site itself: the \<^verbatim>\<open>h2\<close>, else the
  \<^verbatim>\<open>strong\<close>, else the first \<^verbatim>\<open>div\<close>, \<^verbatim>\<open>p\<close> or \<^verbatim>\<open>span\<close> with more than 10
  characters of text. For any other element: \<^verbatim>\<open>h2\<close>, \<^verbatim>\<open>h3\<close>, \<^verbatim>\<open>h4\<close>, a tag
  named \<^verbatim>\<open>.event-title\<close>, \<^verbatim>\<open>strong\<close>, else the first \<^verbatim>\<open>p\<close>, \<^verbatim>\<open>div\<close> or
  \<^verbatim>\<open>span\<close> with any text.
\<close>

definition title_elem :: "bool \<Rightarrow> node list \<Rightarrow> node option" where
  "title_elem is_website_event soup =
     (if is_website_event then
        (case find_tag ''h2'' soup of
           Some e \<Rightarrow> Some e
         | None \<Rightarrow>
             (case find_tag ''strong'' soup of
                Some e \<Rightarrow> Some e
              | None \<Rightarrow>
                  List.find (\<lambda>elem. length (strip (node_text elem)) > 10)
                    (find_all [''div'', ''p'', ''span''] soup)))
      else
        (case find_tag ''h2'' soup of
           Some e \<Rightarrow> Some e
         | None \<Rightarrow>
             (case find_tag ''h3'' soup of
                Some e \<Rightarrow> Some e
              | None \<Rightarrow>
                  (case find_tag ''h4'' soup of
                     Some e \<Rightarrow> Some e
                   | None \<Rightarrow>
                       (case find_tag ''.event-title'' soup of
                          Some e \<Rightarrow> Some e
                        | None \<Rightarrow>
                            (case find_tag ''strong'' soup of
                               Some e \<Rightarrow> Some e
                             | None \<Rightarrow>
                                 List.find (\<lambda>elem. strip (node_text elem) \<noteq> [])
                                   (find_all [''p'', ''div'', ''span''] soup)))))))"

definition extract_title :: "bool \<Rightarrow> node list \<Rightarrow> string" where
  "extract_title is_website_event soup =
     (case title_elem is_website_event soup of
        None \<Rightarrow> take 100 (takeWhile (\<lambda>c. c \<noteq> newline) (strip (get_text soup)))
      | Some e \<Rightarrow> strip (node_text e))"

definition extract_link :: "bool \<Rightarrow> node list \<Rightarrow> string" where
  "extract_link is_website_event soup =
     (if is_website_event then
        (case find_all_with ''a'' ''href'' soup of
           [] \<Rightarrow> ''#''
         | parent_link # _ \<Rightarrow> (case attr parent_link ''href'' of Some h \<Rightarrow> h | None \<Rightarrow> ''#''))
      else
        (case (case find_tag ''a'' soup of None \<Rightarrow> None | Some link_elem \<Rightarrow> attr link_elem ''href'') of
           Some h \<Rightarrow> h
         | None \<Rightarrow>
             (case find_all [''a''] soup of
                [] \<Rightarrow> ''#''
              | first_link # _ \<Rightarrow> (case attr first_link ''href'' of Some h \<Rightarrow> h | None \<Rightarrow> ''#''))))"

text \<open>A root-relative link is put behind the page's URL, without the URL's final slash.\<close>

definition absolute_link :: "string \<Rightarrow> string \<Rightarrow> string" where
  "absolute_link page_url href =
     (if startswith href ''/'' then
        (let base_url = page_url;
             base_url = (if endswith base_url ''/'' then butlast base_url else base_url)
         in base_url @ href)
      else href)"

text \<open>\<^verbatim>\<open>re.sub(r'\s+', ' ', s)\<close>\<close>

function collapse_whitespace :: "string \<Rightarrow> string" where
  "collapse_whitespace [] = []"
| "collapse_whitespace (c # cs) =
     (if is_space c then CHR '' '' # collapse_whitespace (dropWhile is_space cs)
      else c # collapse_whitespace cs)"
  by pat_completeness auto
termination
  by (relation "measure length") (auto simp: length_dropWhile_le less_Suc_eq_le)

definition extract_info :: "string \<Rightarrow> string \<Rightarrow> string" where
  "extract_info title_text full_text =
     (let text0 = full_text;
          text1 = (if contains text0 title_text then strip (replace_first title_text [] text0) else text0);
          text2 = strip (collapse_whitespace text1);
          text3 = replace ''? '' [CHR ''?'', newline]
                    (replace ''! '' [CHR ''!'', newline]
                       (replace ''. '' [CHR ''.'', newline] text2))
      in if length text3 > 2000 then take 2000 text3 @ ''...'' else text3)"

text \<open>
  \<^verbatim>\<open>re.match(r'^[\d.]+$', date)\<close>: digits and dots only, up to the end or up to a final
  line break.
\<close>

definition digits_and_dots :: "string \<Rightarrow> bool" where
  "digits_and_dots s =
     (let body = (if s \<noteq> [] \<and> last s = newline then butlast s else s)
      in body \<noteq> [] \<and> (\<forall>c \<in> set body. is_digit c \<or> c = CHR ''.''))"

definition month_fr_pattern :: rx where
  "month_fr_pattern = Cat [WordB, months_fr, WordB]"

definition weekday_fr_pattern :: rx where
  "weekday_fr_pattern = Cat [WordB, weekdays_fr, WordB]"

text \<open>
  A date of digits and dots only is replaced by what can be read around a month name
  or a weekday name of the text, if there is one.
\<close>

definition refine_date :: "string \<Rightarrow> string \<Rightarrow> error + string" where
  "refine_date date0 full_text =
     (if date0 \<noteq> [] \<and> digits_and_dots date0 then
        (case rx_search month_fr_pattern (lower full_text) of
           Some (start, month) \<Rightarrow>
             (let month_context =
                    slice full_text (start - 20) (min (length full_text) (start + length month + 20))
              in case extract_date month_context of
                   Inl e \<Rightarrow> Inl e
                 | Inr proper_date \<Rightarrow>
                     Inr (if proper_date \<noteq> [] then proper_date else capitalize month))
         | None \<Rightarrow>
             (case rx_search weekday_fr_pattern (lower full_text) of
                Some (start, day) \<Rightarrow>
                  Inr (strip (slice full_text (start - 10)
                                (min (length full_text) (start + length day + 30))))
              | None \<Rightarrow> Inr date0))
      else Inr date0)"

text \<open>
  The matching loop. Both branches on \<^verbatim>\<open>self.exact_matching\<close> are kept as the source
  has them.
\<close>

definition match_term :: "bool \<Rightarrow> string \<Rightarrow> string \<Rightarrow> string \<Rightarrow> string list \<Rightarrow> string list" where
  "match_term exact normalized_title normalized_info term matching =
     (let term_lower = lower term;
          term_normalized = normalize_text term
      in if exact then
           (if contains normalized_title term_lower \<or> contains normalized_info term_lower \<or>
               contains normalized_title term_normalized \<or> contains normalized_info term_normalized
            then (if term \<notin> set matching then matching @ [term] else matching)
            else matching)
         else
           (if contains normalized_title term_lower \<or> contains normalized_info term_lower \<or>
               contains normalized_title term_normalized \<or> contains normalized_info term_normalized
            then (if term \<notin> set matching then matching @ [term] else matching)
            else matching))"

definition find_matching_terms :: "bool \<Rightarrow> string list \<Rightarrow> string \<Rightarrow> string \<Rightarrow> string list" where
  "find_matching_terms exact terms title_text info_text =
     fold (match_term exact (normalize_text title_text) (normalize_text info_text)) terms []"

text \<open>
  \<^verbatim>\<open>EventScraper._process_event\<close>. \<open>now\<close> is the clock reading that becomes
  \<^verbatim>\<open>found_at\<close>. An exception anywhere inside is caught and gives \<open>None\<close>.
\<close>

definition process_event :: "library \<Rightarrow> scraper \<Rightarrow> string \<Rightarrow> string \<Rightarrow> event option" where
  "process_event lib self now event_html =
     (let soup = html_parser lib event_html;
          is_website_event = contains event_html class_event_marker;
          title_text = extract_title is_website_event soup
      in if title_text = [] then None
         else
           (let href = absolute_link (url self) (extract_link is_website_event soup);
                full_text = strip (get_text soup);
                info_text = extract_info title_text full_text
            in case extract_date event_html of
                 Inl e \<Rightarrow> None
               | Inr date0 \<Rightarrow>
                   (case refine_date date0 full_text of
                      Inl e \<Rightarrow> None
                    | Inr date_text \<Rightarrow>
                        (case find_matching_terms (exact_matching self) (search_terms self)
                                title_text info_text of
                           [] \<Rightarrow> None
                         | first_term # more_terms \<Rightarrow>
                             (let ev = \<lparr>title = first_term, original_title = title_text,
                                        link = href, info = info_text, date = date_text,
                                        found_at = now,
                                        matching_terms = first_term # more_terms,
                                        event_id = []\<rparr>
                              in Some (ev\<lparr>event_id := generate_event_id lib ev\<rparr>))))))"

section \<open>The data file\<close>

text \<open>
  The data file is absent, or cannot be read as JSON, or holds a JSON object from
  identifiers to records, which is what the scraper writes. A file of some other JSON
  value, which the scraper never writes, is not modelled.
\<close>

datatype data_file = Missing | Unreadable | Contents store

text \<open>\<^verbatim>\<open>EventScraper._load_processed_events\<close>\<close>

definition load_processed_events :: "data_file \<Rightarrow> store" where
  "load_processed_events file =
     (case file of Missing \<Rightarrow> Map.empty | Unreadable \<Rightarrow> Map.empty | Contents st \<Rightarrow> st)"

text \<open>
  \<^verbatim>\<open>EventScraper._save_processed_events\<close>: a failure is logged and not raised. When
  the file cannot be opened it stays as it is; a write that breaks off leaves a file that
  cannot be read.
\<close>

definition save_processed_events :: "write_outcome \<Rightarrow> store \<Rightarrow> data_file \<Rightarrow> data_file" where
  "save_processed_events outcome st file =
     (case outcome of Written \<Rightarrow> Contents st | NotOpened \<Rightarrow> file | Interrupted \<Rightarrow> Unreadable)"

text \<open>The constructor of \<^verbatim>\<open>EventScraper\<close>, given the term variants in force.\<close>

definition new_scraper ::
  "string \<Rightarrow> int \<Rightarrow> string list \<Rightarrow> bool \<Rightarrow> term_variants \<Rightarrow> data_file \<Rightarrow> scraper" where
  "new_scraper page_url pages terms exact tv file =
     \<lparr>url = page_url, max_pages = pages, exact_matching = exact,
      search_terms = init_search_terms terms tv, term_variants = tv,
      processed_events = load_processed_events file\<rparr>"

section \<open>The walk over the pages\<close>

text \<open>
  The local variables of \<^verbatim>\<open>find_new_events\<close>, with the number of clock readings so
  far and the pages announced in the log (\<^verbatim>\<open>Scraping page: ...\<close>) before each request.
\<close>

record run =
  new_events :: "event list"
  event_count :: nat
  ticks :: nat
  pages_log :: "string list"

definition fallback_selectors :: "selector list" where
  "fallback_selectors =
     [TagClass ''div'' ''event'', Class ''event-item'', TagClass ''div'' ''ce_text'',
      Class ''post'', Class ''item'', Class ''newsBox'', Class ''event-box'']"

fun first_selected :: "selector list \<Rightarrow> node list \<Rightarrow> node list" where
  "first_selected [] soup = []"
| "first_selected (sel # sels) soup =
     (let elems = select sel soup in if elems \<noteq> [] then elems else first_selected sels soup)"

definition find_event_elements :: "node list \<Rightarrow> node list" where
  "find_event_elements soup =
     (let articles = find_all [''article''] soup
      in if articles \<noteq> [] then articles
         else (let event_elements = first_selected fallback_selectors soup
               in if event_elements = []
                  then filter (\<lambda>d. length (strip (node_text d)) > 100) (find_all [''div''] soup)
                  else event_elements))"

text \<open>The loop body for one event element.\<close>

definition process_element :: "library \<Rightarrow> node \<Rightarrow> scraper \<times> run \<Rightarrow> scraper \<times> run" where
  "process_element lib event_elem state =
     (case state of (self, r) \<Rightarrow>
        (case process_event lib self (clock lib (ticks r)) (to_html lib event_elem) of
           None \<Rightarrow> (self, r)
         | Some ev \<Rightarrow>
             (let r = r\<lparr>event_count := event_count r + 1, ticks := ticks r + 1\<rparr>
              in if event_id ev \<notin> dom (processed_events self) then
                   (self\<lparr>processed_events := (processed_events self)
                           (event_id ev \<mapsto> \<lparr>processed_at = clock lib (ticks r),
                                              notified = False, notified_at = None\<rparr>)\<rparr>,
                    r\<lparr>new_events := new_events r @ [ev], ticks := ticks r + 1\<rparr>)
                 else (self, r))))"

text \<open>The link to the next page, made absolute.\<close>

definition next_page_url :: "scraper \<Rightarrow> node list \<Rightarrow> string option" where
  "next_page_url self soup =
     (case find_tag_with_value ''ul'' ''class'' ''pagination'' soup of
        None \<Rightarrow> None
      | Some pagination \<Rightarrow>
          (case find_tag_with_value ''a'' ''rel'' ''next'' (children pagination) of
             None \<Rightarrow> None
           | Some next_link \<Rightarrow>
               (case attr next_link ''href'' of
                  None \<Rightarrow> None
                | Some next_href \<Rightarrow>
                    Some (if startswith next_href ''/'' then
                            (let base_url = url self;
                                 base_url = (if contains base_url ''?''
                                             then takeWhile (\<lambda>c. c \<noteq> CHR ''?'') base_url
                                             else base_url);
                                 base_url = (if endswith base_url ''/'' then butlast base_url
                                             else base_url)
                             in base_url @ next_href)
                          else next_href))))"


text \<open>The loop over the event elements of one page keeps the scraper's configuration.\<close>

lemma process_element_max_pages: "max_pages (fst (process_element lib e state)) = max_pages (fst state)"
  by (cases state) (simp add: process_element_def Let_def split: option.split)

lemma fold_process_element_max_pages:
  "max_pages (fst (fold (process_element lib) es state)) = max_pages (fst state)"
  by (induction es arbitrary: state) (simp_all add: process_element_max_pages)

text \<open>
  The \<^verbatim>\<open>while\<close> loop of \<^verbatim>\<open>find_new_events\<close>. The result says whether a request
  failed (the exception that ends the loop), and gives the scraper and the local
  variables as they are at that moment.
\<close>

function walk :: "library \<Rightarrow> string \<Rightarrow> int \<Rightarrow> scraper \<times> run \<Rightarrow> error option \<times> scraper \<times> run" where
  "walk lib current_url pages_scraped state =
     (if current_url \<noteq> [] \<and> pages_scraped < max_pages (fst state) then
        (let logged = (fst state, (snd state)\<lparr>pages_log := pages_log (snd state) @ [current_url]\<rparr>)
         in case http_get lib current_url of
              None \<Rightarrow> (Some TransportError, logged)
            | Some response_text \<Rightarrow>
                (let soup = html_parser lib response_text;
                     state' = fold (process_element lib) (find_event_elements soup) logged
                 in case next_page_url (fst state') soup of
                      None \<Rightarrow> (None, state')
                    | Some next_page \<Rightarrow>
                        if next_page \<noteq> [] then walk lib next_page (pages_scraped + 1) state'
                        else (None, state')))
      else (None, state))"
  by pat_completeness auto
termination
  by (relation "measure (\<lambda>(lib, current_url, pages_scraped, state). nat (max_pages (fst state) - pages_scraped))")
     (auto simp: fold_process_element_max_pages)

text \<open>What a call of \<^verbatim>\<open>find_new_events\<close> leaves behind.\<close>

record outcome =
  returned :: "event list"
  scraper_after :: scraper
  file_after :: data_file
  requested :: "string list"

text \<open>\<^verbatim>\<open>EventScraper.find_new_events\<close>\<close>

definition find_new_events :: "library \<Rightarrow> scraper \<Rightarrow> data_file \<Rightarrow> outcome" where
  "find_new_events lib self file =
     (case run_search_terms (term_variants self) (search_terms self) of
        None \<Rightarrow> \<lparr>returned = [], scraper_after = self, file_after = file, requested = []\<rparr>
      | Some terms \<Rightarrow>
          (case walk lib (url self) 0
                  (self\<lparr>search_terms := terms\<rparr>,
                   \<lparr>new_events = [], event_count = 0, ticks = 0, pages_log = []\<rparr>) of
             (Some e, self', r) \<Rightarrow>
               \<lparr>returned = [], scraper_after = self', file_after = file, requested = pages_log r\<rparr>
           | (None, self', r) \<Rightarrow>
               \<lparr>returned = new_events r, scraper_after = self',
                file_after = save_processed_events (disk lib) (processed_events self') file,
                requested = pages_log r\<rparr>))"


declare walk.simps [simp del]

text \<open>
  Names for the states inside the loop: after the request is logged, and after the event
  elements of the page are done; the local variables at the start of a run; and the
  property that the new events have distinct identifiers, all of them in the store.
\<close>

definition logged :: "string \<Rightarrow> scraper \<times> run \<Rightarrow> scraper \<times> run" where
  "logged u s = (fst s, (snd s)\<lparr>pages_log := pages_log (snd s) @ [u]\<rparr>)"

definition scrape_page :: "library \<Rightarrow> string \<Rightarrow> string \<Rightarrow> scraper \<times> run \<Rightarrow> scraper \<times> run" where
  "scrape_page lib u response_text s =
     fold (process_element lib) (find_event_elements (html_parser lib response_text)) (logged u s)"

definition fresh_run :: run where
  "fresh_run = \<lparr>new_events = [], event_count = 0, ticks = 0, pages_log = []\<rparr>"

definition recorded :: "scraper \<times> run \<Rightarrow> bool" where
  "recorded s \<longleftrightarrow>
     distinct (map event_id (new_events (snd s))) \<and>
     event_id ` set (new_events (snd s)) \<subseteq> dom (processed_events (fst s))"

text \<open>The new events match, and only with the terms in force.\<close>

definition well_matched :: "string list \<Rightarrow> scraper \<times> run \<Rightarrow> bool" where
  "well_matched terms s \<longleftrightarrow>
     search_terms (fst s) = terms \<and>
     (\<forall>ev \<in> set (new_events (snd s)). matching_terms ev \<noteq> [] \<and> set (matching_terms ev) \<subseteq> set terms)"

text \<open>The parts of an event, as functions of the element's HTML.\<close>

definition fragment_title :: "library \<Rightarrow> string \<Rightarrow> string" where
  "fragment_title lib event_html =
     extract_title (contains event_html class_event_marker) (html_parser lib event_html)"

definition fragment_link :: "library \<Rightarrow> scraper \<Rightarrow> string \<Rightarrow> string" where
  "fragment_link lib self event_html =
     absolute_link (url self)
       (extract_link (contains event_html class_event_marker) (html_parser lib event_html))"

definition fragment_info :: "library \<Rightarrow> string \<Rightarrow> string" where
  "fragment_info lib event_html =
     extract_info (fragment_title lib event_html) (strip (get_text (html_parser lib event_html)))"

definition fragment_date :: "library \<Rightarrow> string \<Rightarrow> error + string" where
  "fragment_date lib event_html =
     (case extract_date event_html of
        Inl e \<Rightarrow> Inl e
      | Inr date0 \<Rightarrow> refine_date date0 (strip (get_text (html_parser lib event_html))))"

definition fragment_terms :: "library \<Rightarrow> scraper \<Rightarrow> string \<Rightarrow> string list" where
  "fragment_terms lib self event_html =
     find_matching_terms (exact_matching self) (search_terms self)
       (fragment_title lib event_html) (fragment_info lib event_html)"

section \<open>The title cascade as an ordered list of strategies\<close>

text \<open>
  The design note of the specification: a cascade is an ordered list of strategies, each
  with an optional result, and the first success is taken. The two lists are the orders
  for an element of the site itself and for any other element.
\<close>

fun first_success :: "('a \<Rightarrow> 'b option) list \<Rightarrow> 'a \<Rightarrow> 'b option" where
  "first_success [] x = None"
| "first_success (strategy # strategies) x =
     (case strategy x of Some y \<Rightarrow> Some y | None \<Rightarrow> first_success strategies x)"

definition website_title_order :: "(node list \<Rightarrow> node option) list" where
  "website_title_order =
     [find_tag ''h2'', find_tag ''strong'',
      \<lambda>soup. List.find (\<lambda>elem. length (strip (node_text elem)) > 10)
               (find_all [''div'', ''p'', ''span''] soup)]"

definition other_title_order :: "(node list \<Rightarrow> node option) list" where
  "other_title_order =
     [find_tag ''h2'', find_tag ''h3'', find_tag ''h4'', find_tag ''strong'',
      \<lambda>soup. List.find (\<lambda>elem. strip (node_text elem) \<noteq> [])
               (find_all [''p'', ''div'', ''span''] soup)]"

section \<open>A small site\<close>

text \<open>
  One page with one event element, the example of the specification: a heading, a
  paragraph and a link to \<^verbatim>\<open>/events/42\<close>. The library reads the markup as the trees
  given here; the digest is a stand-in (the text itself), since the theorems hold for
  every digest.
\<close>

definition example_html :: string where
  "example_html =
     ''<article><h2>Concert Jazz</h2><p>Venue details...</p><a href='' @ [CHR 0x22] @
     ''/events/42'' @ [CHR 0x22] @ ''>Details</a></article>''"

definition example_article :: node where
  "example_article =
     Element ''article'' []
       [Element ''h2'' [] [Text ''Concert Jazz''], Element ''p'' [] [Text ''Venue details...''],
        Element ''a'' [(''href'', ''/events/42'')] [Text ''Details'']]"

definition example_page :: string where
  "example_page = ''<html><body>'' @ example_html @ ''</body></html>''"

definition example_page_soup :: "node list" where
  "example_page_soup = [Element ''html'' [] [Element ''body'' [] [example_article]]]"

definition example_url :: string where
  "example_url = ''https://city.example/agenda''"

text \<open>
  Two more elements: a heading that is blank (a space and a no-break space), and two
  paragraphs of which the first is short.
\<close>

definition blank_html :: string where
  "blank_html = ''<h2> '' @ [CHR 0xA0] @ ''</h2>''"

definition blank_soup :: "node list" where
  "blank_soup = [Element ''h2'' [] [Text ('' '' @ [CHR 0xA0])]]"

definition two_paragraphs_html :: string where
  "two_paragraphs_html = ''<p>Hi</p><p>A much longer paragraph</p>''"

definition two_paragraphs_soup :: "node list" where
  "two_paragraphs_soup =
     [Element ''p'' [] [Text ''Hi''], Element ''p'' [] [Text ''A much longer paragraph'']]"

definition example_markup :: "(string \<times> node list) list" where
  "example_markup =
     [(example_page, example_page_soup), (example_html, [example_article]),
      (blank_html, blank_soup), (two_paragraphs_html, two_paragraphs_soup)]"

definition example_lib :: library where
  "example_lib =
     \<lparr>html_parser = (\<lambda>s. case map_of example_markup s of Some soup \<Rightarrow> soup | None \<Rightarrow> []),
      to_html = (\<lambda>n. if n = example_article then example_html else []),
      md5_hexdigest = (\<lambda>s. s),
      http_get = (\<lambda>u. if u = example_url then Some example_page else None),
      clock = (\<lambda>n. ''2024-01-01 10:00:00''),
      disk = Written\<rparr>"

definition example_scraper :: "data_file \<Rightarrow> scraper" where
  "example_scraper file = new_scraper example_url 5 [''jazz''] True [] file"


definition later_lib :: library where
  "later_lib = example_lib\<lparr>clock := (\<lambda>n. ''2024-01-02 10:00:00'')\<rparr>"


definition example_found :: "string \<Rightarrow> event" where
  "example_found now =
     \<lparr>title = ''jazz'', original_title = ''Concert Jazz'',
      link = ''https://city.example/agenda/events/42'',
      info = ''Venue details...Details'', date = [], found_at = now,
      matching_terms = [''jazz''],
      event_id = ''jazz--https://city.example/agenda/events/42''\<rparr>"

section \<open>Character tests by bits\<close>

text \<open>
  The character tables above, read off the bits of a character. These equations are what
  the evaluation of concrete texts uses.
\<close>

lemma lower_char_bits [code]:
  "lower_char (Char b0 b1 b2 b3 b4 b5 b6 b7) =
     (if b6 \<and> \<not> b5 \<and>
         (if b7 then \<not> (b4 \<and> b2 \<and> b1 \<and> b0)
          else (b0 \<or> b1 \<or> b2 \<or> b3 \<or> b4) \<and> \<not> (b4 \<and> b3 \<and> (b2 \<or> (b1 \<and> b0))))
      then Char b0 b1 b2 b3 b4 True b6 b7 else Char b0 b1 b2 b3 b4 b5 b6 b7)"
  by (cases b0; cases b1; cases b2; cases b3; cases b4; cases b5; cases b6; cases b7)
     (simp_all add: lower_char_def upper_letters_def lower_letters_def)

lemma is_word_bits [code]:
  "is_word (Char b0 b1 b2 b3 b4 b5 b6 b7) =
     (if b7 then
        (if b6 then \<not> (b4 \<and> \<not> b3 \<and> b2 \<and> b1 \<and> b0)
         else b5 \<and>
           (if b4 then
              (if b3 then (if b2 then \<not> (b1 \<and> b0) else b1 \<noteq> b0)
               else (if b2 then \<not> b1 \<and> b0 else b1))
            else b3 \<and> \<not> b2 \<and> b1 \<and> \<not> b0))
      else
        (b6 \<and> (b0 \<or> b1 \<or> b2 \<or> b3 \<or> b4) \<and> \<not> (b4 \<and> b3 \<and> (b2 \<or> (b1 \<and> b0)))) \<or>
        (b6 \<and> \<not> b5 \<and> b4 \<and> b3 \<and> b2 \<and> b1 \<and> b0) \<or>
        (\<not> b6 \<and> b5 \<and> b4 \<and> \<not> (b3 \<and> (b2 \<or> b1))))"
  by (cases b0; cases b1; cases b2; cases b3; cases b4; cases b5; cases b6; cases b7)
     (simp_all add: is_word_def is_digit_def upper_letters_def lower_letters_def
        caseless_word_chars_def)

lemma is_digit_bits [code]:
  "is_digit (Char b0 b1 b2 b3 b4 b5 b6 b7) =
     (\<not> b7 \<and> \<not> b6 \<and> b5 \<and> b4 \<and> \<not> (b3 \<and> (b2 \<or> b1)))"
  by (cases b0; cases b1; cases b2; cases b3; cases b4; cases b5; cases b6; cases b7)
     (simp_all add: is_digit_def)

lemma is_space_bits [code]:
  "is_space (Char b0 b1 b2 b3 b4 b5 b6 b7) =
     (\<not> b6 \<and>
      (if b7 then
         (b5 \<and> \<not> b4 \<and> \<not> b3 \<and> \<not> b2 \<and> \<not> b1 \<and> \<not> b0) \<or>
         (\<not> b5 \<and> \<not> b4 \<and> \<not> b3 \<and> b2 \<and> \<not> b1 \<and> b0)
       else
         (b5 \<and> \<not> b4 \<and> \<not> b3 \<and> \<not> b2 \<and> \<not> b1 \<and> \<not> b0) \<or>
         (\<not> b5 \<and> b4 \<and> b3 \<and> b2) \<or>
         (\<not> b5 \<and> \<not> b4 \<and> b3 \<and> ((\<not> b2 \<and> (b1 \<or> b0)) \<or> (b2 \<and> \<not> b1)))))"
  by (cases b0; cases b1; cases b2; cases b3; cases b4; cases b5; cases b6; cases b7)
     (simp_all add: is_space_def whitespace_def)

section \<open>One event element\<close>

lemma process_event_eq:
  "process_event lib self now event_html =
     (if fragment_title lib event_html = [] then None
      else case fragment_date lib event_html of
             Inl e \<Rightarrow> None
           | Inr date_text \<Rightarrow>
               (case fragment_terms lib self event_html of
                  [] \<Rightarrow> None
                | first_term # more_terms \<Rightarrow>
                    Some \<lparr>title = first_term, original_title = fragment_title lib event_html,
                          link = fragment_link lib self event_html,
                          info = fragment_info lib event_html, date = date_text, found_at = now,
                          matching_terms = first_term # more_terms,
                          event_id = md5_hexdigest lib
                            (first_term @ ''-'' @ date_text @ ''-'' @ fragment_link lib self event_html)\<rparr>))"
  by (simp add: process_event_def Let_def fragment_title_def fragment_link_def fragment_info_def
      fragment_date_def fragment_terms_def generate_event_id_def split: sum.split list.split)

lemma process_event_Some:
  assumes "process_event lib self now event_html = Some ev"
  shows "fragment_title lib event_html \<noteq> []"
    and "fragment_date lib event_html = Inr (date ev)"
    and "matching_terms ev = fragment_terms lib self event_html"
    and "matching_terms ev \<noteq> []"
    and "title ev = hd (matching_terms ev)"
    and "original_title ev = fragment_title lib event_html"
    and "link ev = fragment_link lib self event_html"
    and "info ev = fragment_info lib event_html"
    and "found_at ev = now"
    and "event_id ev = generate_event_id lib ev"
  using assms
  by (auto simp: process_event_eq generate_event_id_def split: if_splits sum.splits list.splits)

lemma match_term_flag: "match_term True nt ni term acc = match_term False nt ni term acc"
  by (simp add: match_term_def)

lemma find_matching_terms_flag:
  "find_matching_terms True terms t i = find_matching_terms False terms t i"
proof -
  have "match_term True (normalize_text t) (normalize_text i) =
        match_term False (normalize_text t) (normalize_text i)"
    by (intro ext) (rule match_term_flag)
  then show ?thesis by (simp add: find_matching_terms_def)
qed

lemma match_term_subset: "set (match_term exact nt ni term acc) \<subseteq> insert term (set acc)"
  by (auto simp: match_term_def Let_def)

lemma fold_match_term_subset:
  "set (fold (match_term exact nt ni) terms acc) \<subseteq> set terms \<union> set acc"
proof (induction terms arbitrary: acc)
  case Nil
  show ?case by simp
next
  case (Cons t ts)
  have "set (fold (match_term exact nt ni) ts (match_term exact nt ni t acc))
          \<subseteq> set ts \<union> set (match_term exact nt ni t acc)"
    by (rule Cons.IH)
  also have "\<dots> \<subseteq> set ts \<union> insert t (set acc)"
    using match_term_subset [of exact nt ni t acc] by blast
  finally show ?case by auto
qed

lemma find_matching_terms_subset:
  "set (find_matching_terms exact terms t i) \<subseteq> set terms"
  using fold_match_term_subset [of exact "normalize_text t" "normalize_text i" terms "[]"]
  by (simp add: find_matching_terms_def)

lemma example_title: "fragment_title example_lib example_html = ''Concert Jazz''"
  by code_simp

lemma example_link:
  "fragment_link example_lib (example_scraper file) example_html =
   ''https://city.example/agenda/events/42''"
  by (simp add: fragment_link_def example_scraper_def new_scraper_def example_url_def) code_simp

lemma example_info: "fragment_info example_lib example_html = ''Venue details...Details''"
  by code_simp

lemma example_date: "fragment_date example_lib example_html = Inr []"
  by code_simp

lemma example_terms: "fragment_terms example_lib (example_scraper file) example_html = [''jazz'']"
  by (simp add: fragment_terms_def example_scraper_def new_scraper_def) code_simp

lemma example_digest: "md5_hexdigest example_lib s = s"
  by (simp add: example_lib_def)

lemma example_event:
  "process_event example_lib (example_scraper file) now example_html =
   Some \<lparr>title = ''jazz'', original_title = ''Concert Jazz'',
         link = ''https://city.example/agenda/events/42'',
         info = ''Venue details...Details'', date = [], found_at = now,
         matching_terms = [''jazz''],
         event_id = ''jazz--https://city.example/agenda/events/42''\<rparr>"
  by (simp add: process_event_eq example_title example_link example_info example_date
      example_terms example_digest)

lemma find_matching_terms_any_flag:
  "find_matching_terms a terms t i = find_matching_terms b terms t i"
  using find_matching_terms_flag [of terms t i] by (cases a; cases b) simp_all

lemma fragment_terms_cong:
  "search_terms a = search_terms b \<Longrightarrow>
   fragment_terms lib a event_html = fragment_terms lib b event_html"
  using find_matching_terms_any_flag [of "exact_matching a" _ _ _ "exact_matching b"]
  by (simp add: fragment_terms_def)

lemma fragment_link_cong:
  "url a = url b \<Longrightarrow> fragment_link lib a event_html = fragment_link lib b event_html"
  by (simp add: fragment_link_def)

lemma process_event_cong:
  assumes "url a = url b" and "search_terms a = search_terms b"
  shows "process_event lib a now event_html = process_event lib b now event_html"
  unfolding process_event_eq fragment_terms_cong [OF assms(2)] fragment_link_cong [OF assms(1)]
  by (rule refl)

text \<open>
  Claim C4. For every element and every set of search terms, the matching terms and the
  result of processing the element (the same event, or none) are the same whether
  \<^verbatim>\<open>exact_matching\<close> is true or false.
\<close>

theorem exact_matching_flag_is_ignored:
  "find_matching_terms True terms title_text info_text =
   find_matching_terms False terms title_text info_text \<and>
   process_event lib (self\<lparr>exact_matching := True\<rparr>) now event_html =
   process_event lib (self\<lparr>exact_matching := False\<rparr>) now event_html"
proof
  show "find_matching_terms True terms title_text info_text =
        find_matching_terms False terms title_text info_text"
    by (rule find_matching_terms_flag)
  show "process_event lib (self\<lparr>exact_matching := True\<rparr>) now event_html =
        process_event lib (self\<lparr>exact_matching := False\<rparr>) now event_html"
    by (rule process_event_cong) simp_all
qed

text \<open>
  Claim C7. The identifier of an event is the hexadecimal MD5 digest of its title, a
  hyphen, its date, a hyphen and its link, so that events with the same three fields have
  the same identifier; and the title of a returned event is the first matching term, not
  the title that was extracted, which is kept as the original title.
\<close>

theorem event_id_is_digest_of_display_title_date_link:
  "generate_event_id lib ev = md5_hexdigest lib (title ev @ ''-'' @ date ev @ ''-'' @ link ev) \<and>
   (title e1 = title e2 \<and> date e1 = date e2 \<and> link e1 = link e2 \<longrightarrow>
      generate_event_id lib e1 = generate_event_id lib e2) \<and>
   (process_event lib self now event_html = Some found \<longrightarrow>
      event_id found = md5_hexdigest lib (title found @ ''-'' @ date found @ ''-'' @ link found) \<and>
      title found = hd (fragment_terms lib self event_html) \<and>
      original_title found = fragment_title lib event_html)"
proof (intro conjI impI)
  show "generate_event_id lib ev = md5_hexdigest lib (title ev @ ''-'' @ date ev @ ''-'' @ link ev)"
    by (simp add: generate_event_id_def)
next
  assume "title e1 = title e2 \<and> date e1 = date e2 \<and> link e1 = link e2"
  then show "generate_event_id lib e1 = generate_event_id lib e2"
    by (simp add: generate_event_id_def)
next
  assume some: "process_event lib self now event_html = Some found"
  show "event_id found = md5_hexdigest lib (title found @ ''-'' @ date found @ ''-'' @ link found)"
    using process_event_Some(10) [OF some] by (simp add: generate_event_id_def)
  show "title found = hd (fragment_terms lib self event_html)"
    using process_event_Some(3,5) [OF some] by simp
  show "original_title found = fragment_title lib event_html"
    by (rule process_event_Some(6) [OF some])
qed

section \<open>The walk, page by page\<close>

lemma walk_stop: "u = [] \<or> \<not> n < max_pages (fst s) \<Longrightarrow> walk lib u n s = (None, s)"
  by (subst walk.simps) auto

lemma walk_abort:
  "u \<noteq> [] \<Longrightarrow> n < max_pages (fst s) \<Longrightarrow> http_get lib u = None \<Longrightarrow>
   walk lib u n s = (Some TransportError, logged u s)"
  by (subst walk.simps) (simp add: logged_def)

lemma walk_final:
  "u \<noteq> [] \<Longrightarrow> n < max_pages (fst s) \<Longrightarrow> http_get lib u = Some t \<Longrightarrow>
   next_page_url (fst (scrape_page lib u t s)) (html_parser lib t) = None \<or>
   next_page_url (fst (scrape_page lib u t s)) (html_parser lib t) = Some [] \<Longrightarrow>
   walk lib u n s = (None, scrape_page lib u t s)"
  by (subst walk.simps) (auto simp: logged_def scrape_page_def Let_def)

lemma walk_follow:
  "u \<noteq> [] \<Longrightarrow> n < max_pages (fst s) \<Longrightarrow> http_get lib u = Some t \<Longrightarrow>
   next_page_url (fst (scrape_page lib u t s)) (html_parser lib t) = Some nx \<Longrightarrow> nx \<noteq> [] \<Longrightarrow>
   walk lib u n s = walk lib nx (n + 1) (scrape_page lib u t s)"
  by (subst walk.simps) (simp add: logged_def scrape_page_def Let_def)

lemma walk_induct [case_names stop abort final follow]:
  assumes stop: "\<And>u n s. u = [] \<or> \<not> n < max_pages (fst s) \<Longrightarrow> P u n s"
    and abort: "\<And>u n s. u \<noteq> [] \<Longrightarrow> n < max_pages (fst s) \<Longrightarrow> http_get lib u = None \<Longrightarrow> P u n s"
    and final: "\<And>u n s t. u \<noteq> [] \<Longrightarrow> n < max_pages (fst s) \<Longrightarrow> http_get lib u = Some t \<Longrightarrow>
                next_page_url (fst (scrape_page lib u t s)) (html_parser lib t) = None \<or>
                next_page_url (fst (scrape_page lib u t s)) (html_parser lib t) = Some [] \<Longrightarrow>
                P u n s"
    and follow: "\<And>u n s t nx. u \<noteq> [] \<Longrightarrow> n < max_pages (fst s) \<Longrightarrow> http_get lib u = Some t \<Longrightarrow>
                next_page_url (fst (scrape_page lib u t s)) (html_parser lib t) = Some nx \<Longrightarrow>
                nx \<noteq> [] \<Longrightarrow> P nx (n + 1) (scrape_page lib u t s) \<Longrightarrow> P u n s"
  shows "P u n s"
proof -
  have "lib' = lib \<Longrightarrow> P u n s" for lib'
  proof (induction lib' u n s rule: walk.induct)
    case (1 lib' u n s)
    have lib': "lib' = lib" by (rule "1.prems")
    show ?case
    proof (cases "u = [] \<or> \<not> n < max_pages (fst s)")
      case True
      then show ?thesis by (rule stop)
    next
      case False
      then have u: "u \<noteq> []" and n: "n < max_pages (fst s)" by simp_all
      show ?thesis
      proof (cases "http_get lib u")
        case None
        from u n None show ?thesis by (rule abort)
      next
        case (Some t)
        show ?thesis
        proof (cases "next_page_url (fst (scrape_page lib u t s)) (html_parser lib t)")
          case None
          then show ?thesis using final [OF u n Some] by simp
        next
          case nx: (Some nx)
          show ?thesis
          proof (cases "nx = []")
            case True
            with nx show ?thesis using final [OF u n Some] by simp
          next
            case False
            have "P nx (n + 1) (scrape_page lib u t s)"
              using "1.IH" [OF _ refl _ refl refl, of t nx] u n nx False Some lib'
              unfolding scrape_page_def logged_def by simp
            from follow [OF u n Some nx False this] show ?thesis .
          qed
        qed
      qed
    qed
  qed
  then show ?thesis by simp
qed

text \<open>One element: what stays, what grows.\<close>

lemma process_element_cases:
  obtains (skipped) "process_event lib (fst s) (clock lib (ticks (snd s))) (to_html lib e) = None"
      "process_element lib e s = s"
  | (known) ev where
      "process_event lib (fst s) (clock lib (ticks (snd s))) (to_html lib e) = Some ev"
      "event_id ev \<in> dom (processed_events (fst s))"
      "fst (process_element lib e s) = fst s"
      "new_events (snd (process_element lib e s)) = new_events (snd s)"
      "pages_log (snd (process_element lib e s)) = pages_log (snd s)"
  | (new) ev p where
      "process_event lib (fst s) (clock lib (ticks (snd s))) (to_html lib e) = Some ev"
      "event_id ev \<notin> dom (processed_events (fst s))"
      "fst (process_element lib e s) =
         (fst s)\<lparr>processed_events := (processed_events (fst s))(event_id ev \<mapsto> p)\<rparr>"
      "new_events (snd (process_element lib e s)) = new_events (snd s) @ [ev]"
      "pages_log (snd (process_element lib e s)) = pages_log (snd s)"
proof (cases s)
  case (Pair self r)
  show ?thesis
  proof (cases "process_event lib self (clock lib (ticks r)) (to_html lib e)")
    case None
    with Pair show ?thesis by (intro skipped) (simp_all add: process_element_def)
  next
    case (Some ev)
    show ?thesis
    proof (cases "event_id ev \<in> dom (processed_events self)")
      case True
      with Pair Some show ?thesis
        by (intro known [of ev]) (simp_all add: process_element_def Let_def)
    next
      case False
      with Pair Some show ?thesis
        by (intro new [of ev]) (simp_all add: process_element_def Let_def)
    qed
  qed
qed

text \<open>A property kept by each element and by the log is kept by the page and by the walk.\<close>

lemma scrape_page_keeps:
  assumes step: "\<And>e s. P s \<Longrightarrow> P (process_element lib e s)"
    and log: "\<And>u s. P s \<Longrightarrow> P (logged u s)"
    and start: "P s"
  shows "P (scrape_page lib u t s)"
proof -
  have "P s \<Longrightarrow> P (fold (process_element lib) es s)" for es s
    by (induction es arbitrary: s) (simp_all add: step)
  then show ?thesis unfolding scrape_page_def using log [OF start] by blast
qed

lemma walk_keeps:
  assumes step: "\<And>e s. P s \<Longrightarrow> P (process_element lib e s)"
    and log: "\<And>u s. P s \<Longrightarrow> P (logged u s)"
  shows "P s \<Longrightarrow> P (snd (walk lib u n s))"
proof (induction u n s rule: walk_induct [where lib = lib])
  case (stop u n s)
  then show ?case by (simp add: walk_stop)
next
  case (abort u n s)
  then show ?case by (simp add: walk_abort log)
next
  case (final u n s t)
  have "P (scrape_page lib u t s)"
    by (rule scrape_page_keeps [where P = P]) (simp_all add: step log final.prems)
  then show ?case using final.hyps by (simp add: walk_final)
next
  case (follow u n s t nx)
  have "P (scrape_page lib u t s)"
    by (rule scrape_page_keeps [where P = P]) (simp_all add: step log follow.prems)
  then have "P (snd (walk lib nx (n + 1) (scrape_page lib u t s)))" by (rule follow.IH)
  then show ?case using follow.hyps by (simp add: walk_follow)
qed

text \<open>The configuration is kept.\<close>

lemma process_element_url: "url (fst (process_element lib e s)) = url (fst s)"
  by (cases s rule: process_element_cases [of lib _ e]) simp_all

lemma process_element_search_terms:
  "search_terms (fst (process_element lib e s)) = search_terms (fst s)"
  by (cases s rule: process_element_cases [of lib _ e]) simp_all

lemma scrape_page_config:
  "url (fst (scrape_page lib u t s)) = url (fst s) \<and>
   search_terms (fst (scrape_page lib u t s)) = search_terms (fst s) \<and>
   max_pages (fst (scrape_page lib u t s)) = max_pages (fst s)"
  by (rule scrape_page_keeps)
     (simp_all add: process_element_url process_element_search_terms process_element_max_pages
       logged_def)

text \<open>The store only grows.\<close>

lemma process_element_store_grows:
  "dom (processed_events (fst s)) \<subseteq> dom (processed_events (fst (process_element lib e s)))"
  by (cases s rule: process_element_cases [of lib _ e]) auto

lemma process_element_store_grows':
  "D \<subseteq> dom (processed_events (fst s)) \<Longrightarrow>
   D \<subseteq> dom (processed_events (fst (process_element lib e s)))"
  by (erule order_trans) (rule process_element_store_grows)

lemma scrape_page_store_grows:
  "dom (processed_events (fst s)) \<subseteq> dom (processed_events (fst (scrape_page lib u t s)))"
  by (rule scrape_page_keeps
        [where P = "\<lambda>s'. dom (processed_events (fst s)) \<subseteq> dom (processed_events (fst s'))"])
     (simp_all add: process_element_store_grows' logged_def)

lemma walk_store_grows:
  "dom (processed_events (fst s)) \<subseteq> dom (processed_events (fst (snd (walk lib u n s))))"
  by (rule walk_keeps
        [where P = "\<lambda>s'. dom (processed_events (fst s)) \<subseteq> dom (processed_events (fst s'))"])
     (simp_all add: process_element_store_grows' logged_def)

text \<open>The new events have distinct identifiers, all of them in the store.\<close>

lemma process_element_recorded: "recorded s \<Longrightarrow> recorded (process_element lib e s)"
  by (cases s rule: process_element_cases [of lib _ e]) (auto simp: recorded_def)

lemma walk_recorded: "recorded s \<Longrightarrow> recorded (snd (walk lib u n s))"
  by (rule walk_keeps [where P = recorded])
     (simp_all add: process_element_recorded, simp add: recorded_def logged_def)




section \<open>A run\<close>

lemma find_new_events_refused:
  "run_search_terms (term_variants self) (search_terms self) = None \<Longrightarrow>
   find_new_events lib self file =
     \<lparr>returned = [], scraper_after = self, file_after = file, requested = []\<rparr>"
  by (simp add: find_new_events_def)

lemma find_new_events_aborted:
  assumes "run_search_terms (term_variants self) (search_terms self) = Some ts"
    and "fst (walk lib (url self) 0 (self\<lparr>search_terms := ts\<rparr>, fresh_run)) \<noteq> None"
  shows "find_new_events lib self file =
     \<lparr>returned = [],
      scraper_after = fst (snd (walk lib (url self) 0 (self\<lparr>search_terms := ts\<rparr>, fresh_run))),
      file_after = file,
      requested = pages_log (snd (snd (walk lib (url self) 0 (self\<lparr>search_terms := ts\<rparr>, fresh_run))))\<rparr>"
  using assms
  by (cases "walk lib (url self) 0 (self\<lparr>search_terms := ts\<rparr>, fresh_run)")
     (auto simp: find_new_events_def fresh_run_def)

lemma find_new_events_completed:
  assumes "run_search_terms (term_variants self) (search_terms self) = Some ts"
    and "fst (walk lib (url self) 0 (self\<lparr>search_terms := ts\<rparr>, fresh_run)) = None"
  shows "find_new_events lib self file =
     \<lparr>returned = new_events (snd (snd (walk lib (url self) 0 (self\<lparr>search_terms := ts\<rparr>, fresh_run)))),
      scraper_after = fst (snd (walk lib (url self) 0 (self\<lparr>search_terms := ts\<rparr>, fresh_run))),
      file_after = save_processed_events (disk lib)
        (processed_events (fst (snd (walk lib (url self) 0 (self\<lparr>search_terms := ts\<rparr>, fresh_run))))) file,
      requested = pages_log (snd (snd (walk lib (url self) 0 (self\<lparr>search_terms := ts\<rparr>, fresh_run))))\<rparr>"
  using assms
  by (cases "walk lib (url self) 0 (self\<lparr>search_terms := ts\<rparr>, fresh_run)")
     (auto simp: find_new_events_def fresh_run_def)

text \<open>
  Claim C10. The events returned by one run have pairwise distinct identifiers.
\<close>

theorem returned_events_have_distinct_ids:
  "distinct (map event_id (returned (find_new_events lib self file)))"
proof (cases "run_search_terms (term_variants self) (search_terms self)")
  case None
  then show ?thesis by (simp add: find_new_events_refused)
next
  case (Some ts)
  let ?w = "walk lib (url self) 0 (self\<lparr>search_terms := ts\<rparr>, fresh_run)"
  show ?thesis
  proof (cases "fst ?w = None")
    case True
    have "recorded (self\<lparr>search_terms := ts\<rparr>, fresh_run)"
      by (simp add: recorded_def fresh_run_def)
    then have "recorded (snd ?w)" by (rule walk_recorded)
    then show ?thesis by (simp add: find_new_events_completed [OF Some True] recorded_def)
  next
    case False
    then show ?thesis by (simp add: find_new_events_aborted [OF Some False])
  qed
qed










section \<open>A second run over the same pages\<close>

lemma process_event_other_run:
  assumes "html_parser lib2 = html_parser lib1" and "md5_hexdigest lib2 = md5_hexdigest lib1"
    and "url b = url a" and "search_terms b = search_terms a"
  shows "process_event lib2 b now2 event_html =
         map_option (\<lambda>ev. ev\<lparr>found_at := now2\<rparr>) (process_event lib1 a now1 event_html)"
proof -
  have eqs: "fragment_title lib2 event_html = fragment_title lib1 event_html"
    "fragment_info lib2 event_html = fragment_info lib1 event_html"
    "fragment_date lib2 event_html = fragment_date lib1 event_html"
    "fragment_link lib2 b event_html = fragment_link lib1 a event_html"
    unfolding fragment_title_def fragment_info_def fragment_date_def fragment_link_def
      assms(1) assms(3)
    by (rule refl)+
  have terms: "fragment_terms lib2 b event_html = fragment_terms lib1 a event_html"
    using assms(4) find_matching_terms_any_flag [of "exact_matching b" _ _ _ "exact_matching a"]
    by (simp add: fragment_terms_def eqs)
  show ?thesis
    unfolding process_event_eq eqs terms assms(2)
    by (simp split: sum.split list.split)
qed

lemma process_event_other_run_id:
  assumes "html_parser lib2 = html_parser lib1" and "md5_hexdigest lib2 = md5_hexdigest lib1"
    and "url b = url a" and "search_terms b = search_terms a"
    and "process_event lib2 b now2 event_html = Some ev2"
  obtains ev1 where "process_event lib1 a now1 event_html = Some ev1" "event_id ev1 = event_id ev2"
  using assms(5) unfolding process_event_other_run [OF assms(1-4), of now2 event_html now1]
  by auto

lemma process_element_second_run:
  assumes libs: "html_parser lib2 = html_parser lib1" "md5_hexdigest lib2 = md5_hexdigest lib1"
      "to_html lib2 = to_html lib1"
    and cfg: "url (fst s2) = url (fst s1)" "search_terms (fst s2) = search_terms (fst s1)"
    and known: "dom (processed_events (fst (process_element lib1 e s1))) \<subseteq> dom (processed_events (fst s2))"
  shows "fst (process_element lib2 e s2) = fst s2 \<and>
         new_events (snd (process_element lib2 e s2)) = new_events (snd s2)"
proof (cases s2 rule: process_element_cases [of lib2 _ e])
  case skipped
  then show ?thesis by simp
next
  case (known ev)
  then show ?thesis by simp
next
  case (new ev2 p)
  from process_event_other_run_id [OF libs(1,2) cfg new(1) [unfolded libs(3)]]
  obtain ev1 where ev1: "process_event lib1 (fst s1) (clock lib1 (ticks (snd s1))) (to_html lib1 e) = Some ev1"
    and same: "event_id ev1 = event_id ev2" by blast
  have "event_id ev1 \<in> dom (processed_events (fst (process_element lib1 e s1)))"
  proof (cases s1 rule: process_element_cases [of lib1 _ e])
    case skipped
    with ev1 show ?thesis by simp
  next
    case (known ev)
    with ev1 show ?thesis by auto
  next
    case (new ev p)
    with ev1 show ?thesis by auto
  qed
  with assms(6) same new(2) show ?thesis by auto
qed

lemma fold_process_element_store_grows:
  "dom (processed_events (fst s)) \<subseteq> dom (processed_events (fst (fold (process_element lib) es s)))"
proof (induction es arbitrary: s)
  case Nil
  show ?case by simp
next
  case (Cons e es)
  have "dom (processed_events (fst s)) \<subseteq> dom (processed_events (fst (process_element lib e s)))"
    by (rule process_element_store_grows)
  also have "\<dots> \<subseteq> dom (processed_events (fst (fold (process_element lib) es (process_element lib e s))))"
    by (rule Cons.IH)
  finally show ?case by simp
qed

lemma fold_process_element_second_run:
  assumes libs: "html_parser lib2 = html_parser lib1" "md5_hexdigest lib2 = md5_hexdigest lib1"
      "to_html lib2 = to_html lib1"
  shows "url (fst s2) = url (fst s1) \<Longrightarrow> search_terms (fst s2) = search_terms (fst s1) \<Longrightarrow>
         dom (processed_events (fst (fold (process_element lib1) es s1))) \<subseteq> dom (processed_events (fst s2)) \<Longrightarrow>
         fst (fold (process_element lib2) es s2) = fst s2 \<and>
         new_events (snd (fold (process_element lib2) es s2)) = new_events (snd s2)"
proof (induction es arbitrary: s1 s2)
  case Nil
  show ?case by simp
next
  case (Cons e es)
  let ?s1 = "process_element lib1 e s1" and ?s2 = "process_element lib2 e s2"
  have "dom (processed_events (fst ?s1)) \<subseteq> dom (processed_events (fst (fold (process_element lib1) es ?s1)))"
    by (rule fold_process_element_store_grows)
  with Cons.prems(3) have "dom (processed_events (fst ?s1)) \<subseteq> dom (processed_events (fst s2))"
    by simp
  from process_element_second_run [OF libs Cons.prems(1,2) this]
  have one: "fst ?s2 = fst s2" "new_events (snd ?s2) = new_events (snd s2)" by simp_all
  have "fst (fold (process_element lib2) es ?s2) = fst ?s2 \<and>
        new_events (snd (fold (process_element lib2) es ?s2)) = new_events (snd ?s2)"
  proof (rule Cons.IH)
    show "url (fst ?s2) = url (fst ?s1)"
      using Cons.prems(1) by (simp add: process_element_url)
    show "search_terms (fst ?s2) = search_terms (fst ?s1)"
      using Cons.prems(2) by (simp add: process_element_search_terms)
    show "dom (processed_events (fst (fold (process_element lib1) es ?s1))) \<subseteq> dom (processed_events (fst ?s2))"
      using Cons.prems(3) one(1) by simp
  qed
  with one show ?case by simp
qed

lemma scrape_page_second_run:
  assumes libs: "html_parser lib2 = html_parser lib1" "md5_hexdigest lib2 = md5_hexdigest lib1"
      "to_html lib2 = to_html lib1"
    and cfg: "url (fst s2) = url (fst s1)" "search_terms (fst s2) = search_terms (fst s1)"
    and known: "dom (processed_events (fst (scrape_page lib1 u t s1))) \<subseteq> dom (processed_events (fst s2))"
  shows "fst (scrape_page lib2 u t s2) = fst s2 \<and>
         new_events (snd (scrape_page lib2 u t s2)) = new_events (snd s2)"
proof -
  have "fst (fold (process_element lib2) (find_event_elements (html_parser lib1 t)) (logged u s2)) = fst (logged u s2) \<and>
        new_events (snd (fold (process_element lib2) (find_event_elements (html_parser lib1 t)) (logged u s2))) =
        new_events (snd (logged u s2))"
    by (rule fold_process_element_second_run [OF libs, where ?s1.0 = "logged u s1"])
       (use cfg known in \<open>simp_all add: logged_def scrape_page_def\<close>)
  then show ?thesis by (simp add: scrape_page_def libs(1) logged_def)
qed

lemma next_page_url_cong: "url a = url b \<Longrightarrow> next_page_url a soup = next_page_url b soup"
  by (simp add: next_page_url_def Let_def split: option.split)

lemma walk_config:
  "url (fst (snd (walk lib u n s))) = url (fst s) \<and>
   search_terms (fst (snd (walk lib u n s))) = search_terms (fst s) \<and>
   max_pages (fst (snd (walk lib u n s))) = max_pages (fst s)"
  by (rule walk_keeps
        [where P = "\<lambda>s'. url (fst s') = url (fst s) \<and> search_terms (fst s') = search_terms (fst s) \<and>
                          max_pages (fst s') = max_pages (fst s)"])
     (simp_all add: process_element_url process_element_search_terms process_element_max_pages
        logged_def)

lemma walk_second_run:
  assumes libs: "html_parser lib2 = html_parser lib1" "md5_hexdigest lib2 = md5_hexdigest lib1"
      "to_html lib2 = to_html lib1"
    and pages: "http_get lib2 = http_get lib1"
  shows "url (fst s2) = url (fst s1) \<Longrightarrow> search_terms (fst s2) = search_terms (fst s1) \<Longrightarrow>
         max_pages (fst s2) = max_pages (fst s1) \<Longrightarrow>
         dom (processed_events (fst (snd (walk lib1 u n s1)))) \<subseteq> dom (processed_events (fst s2)) \<Longrightarrow>
         fst (snd (walk lib2 u n s2)) = fst s2 \<and>
         new_events (snd (snd (walk lib2 u n s2))) = new_events (snd s2)"
proof (induction u n s1 arbitrary: s2 rule: walk_induct [where lib = lib1])
  case (stop u n s)
  then have "u = [] \<or> \<not> n < max_pages (fst s2)" by simp
  then show ?case by (simp add: walk_stop)
next
  case (abort u n s)
  then have "u \<noteq> []" "n < max_pages (fst s2)" "http_get lib2 u = None"
    by (simp_all add: pages)
  then show ?case by (simp add: walk_abort logged_def)
next
  case (final u n s t)
  have u: "u \<noteq> []" "n < max_pages (fst s2)" "http_get lib2 u = Some t"
    using final by (simp_all add: pages)
  have "dom (processed_events (fst (scrape_page lib1 u t s))) \<subseteq> dom (processed_events (fst s2))"
    using final.prems(4) final.hyps by (simp add: walk_final)
  from scrape_page_second_run [OF libs final.prems(1,2) this]
  have page: "fst (scrape_page lib2 u t s2) = fst s2"
    "new_events (snd (scrape_page lib2 u t s2)) = new_events (snd s2)" by simp_all
  have "url (fst (scrape_page lib2 u t s2)) = url (fst (scrape_page lib1 u t s))"
    using final.prems(1) by (simp add: scrape_page_config)
  from next_page_url_cong [OF this] final.hyps(4)
  have "next_page_url (fst (scrape_page lib2 u t s2)) (html_parser lib2 t) = None \<or>
        next_page_url (fst (scrape_page lib2 u t s2)) (html_parser lib2 t) = Some []"
    by (simp add: libs(1))
  from walk_final [OF u this] page show ?case by simp
next
  case (follow u n s t nx)
  have u: "u \<noteq> []" "n < max_pages (fst s2)" "http_get lib2 u = Some t"
    using follow by (simp_all add: pages)
  have walk1: "walk lib1 u n s = walk lib1 nx (n + 1) (scrape_page lib1 u t s)"
    using follow.hyps by (simp add: walk_follow)
  have "dom (processed_events (fst (scrape_page lib1 u t s)))
          \<subseteq> dom (processed_events (fst (snd (walk lib1 nx (n + 1) (scrape_page lib1 u t s)))))"
    by (rule walk_store_grows)
  with follow.prems(4)
  have "dom (processed_events (fst (scrape_page lib1 u t s))) \<subseteq> dom (processed_events (fst s2))"
    by (simp add: walk1)
  from scrape_page_second_run [OF libs follow.prems(1,2) this]
  have page: "fst (scrape_page lib2 u t s2) = fst s2"
    "new_events (snd (scrape_page lib2 u t s2)) = new_events (snd s2)" by simp_all
  have cfg: "url (fst (scrape_page lib2 u t s2)) = url (fst (scrape_page lib1 u t s))"
    "search_terms (fst (scrape_page lib2 u t s2)) = search_terms (fst (scrape_page lib1 u t s))"
    "max_pages (fst (scrape_page lib2 u t s2)) = max_pages (fst (scrape_page lib1 u t s))"
    using follow.prems(1-3) by (simp_all add: scrape_page_config)
  from next_page_url_cong [OF cfg(1)] follow.hyps(4)
  have nx: "next_page_url (fst (scrape_page lib2 u t s2)) (html_parser lib2 t) = Some nx"
    by (simp add: libs(1))
  have walk2: "walk lib2 u n s2 = walk lib2 nx (n + 1) (scrape_page lib2 u t s2)"
    by (rule walk_follow [OF u nx follow.hyps(5)])
  have "dom (processed_events (fst (snd (walk lib1 nx (n + 1) (scrape_page lib1 u t s)))))
          \<subseteq> dom (processed_events (fst (scrape_page lib2 u t s2)))"
    using follow.prems(4) by (simp add: walk1 page(1))
  from follow.IH [OF cfg this] page show ?case by (simp add: walk2)
qed

text \<open>
  Claim C1. A run finds its events; its store is written to the data file. When a second
  scraper, built the same way, loads that file and runs against the same pages (the same
  answers to the requests, read and serialised the same way, with the same digest), it
  returns no new events. The clock and the fate of the second write are free.
\<close>

theorem second_run_finds_nothing_new:
  assumes first: "first = find_new_events lib (new_scraper page_url pages terms exact tv stored) stored"
    and persisted: "file_after first = Contents (processed_events (scraper_after first))"
    and same_pages: "http_get later = http_get lib" "html_parser later = html_parser lib"
      "to_html later = to_html lib" "md5_hexdigest later = md5_hexdigest lib"
  shows "returned (find_new_events later
            (new_scraper page_url pages terms exact tv (file_after first)) (file_after first)) = []"
proof -
  let ?sc1 = "new_scraper page_url pages terms exact tv stored"
  let ?sc2 = "new_scraper page_url pages terms exact tv (file_after first)"
  have cfg: "term_variants ?sc2 = term_variants ?sc1" "search_terms ?sc2 = search_terms ?sc1"
    "url ?sc2 = url ?sc1" "max_pages ?sc2 = max_pages ?sc1"
    by (simp_all add: new_scraper_def)
  have store2: "processed_events ?sc2 = processed_events (scraper_after first)"
    by (simp add: new_scraper_def load_processed_events_def persisted)
  show ?thesis
  proof (cases "run_search_terms (term_variants ?sc1) (search_terms ?sc1)")
    case None
    then have "run_search_terms (term_variants ?sc2) (search_terms ?sc2) = None"
      by (simp add: cfg)
    then show ?thesis by (simp add: find_new_events_refused)
  next
    case (Some ts)
    then have Some2: "run_search_terms (term_variants ?sc2) (search_terms ?sc2) = Some ts"
      by (simp add: cfg)
    let ?w1 = "walk lib (url ?sc1) 0 (?sc1\<lparr>search_terms := ts\<rparr>, fresh_run)"
    let ?w2 = "walk later (url ?sc1) 0 (?sc2\<lparr>search_terms := ts\<rparr>, fresh_run)"
    have after: "scraper_after first = fst (snd ?w1)"
      unfolding first
      by (cases "fst ?w1 = None")
         (simp_all add: find_new_events_completed [OF Some] find_new_events_aborted [OF Some])
    have "fst (snd ?w2) = fst (?sc2\<lparr>search_terms := ts\<rparr>, fresh_run) \<and>
          new_events (snd (snd ?w2)) = new_events (snd (?sc2\<lparr>search_terms := ts\<rparr>, fresh_run))"
      by (rule walk_second_run [OF same_pages(2,4,3,1), where ?s1.0 = "(?sc1\<lparr>search_terms := ts\<rparr>, fresh_run)"])
         (simp_all add: cfg store2 after)
    then have none: "new_events (snd (snd ?w2)) = []" by (simp add: fresh_run_def)
    have w2: "walk later (url ?sc2) 0 (?sc2\<lparr>search_terms := ts\<rparr>, fresh_run) = ?w2"
      by (simp add: cfg)
    show ?thesis
      by (cases "fst ?w2 = None")
         (simp_all add: find_new_events_completed [OF Some2] find_new_events_aborted [OF Some2]
            w2 none)
  qed
qed

section \<open>The small site, evaluated\<close>

lemma example_scraper_fields:
  "url (example_scraper file) = example_url"
  "max_pages (example_scraper file) = 5"
  "term_variants (example_scraper file) = []"
  "processed_events (example_scraper file) = load_processed_events file"
  by (simp_all add: example_scraper_def new_scraper_def)

lemma example_scraper_terms: "search_terms (example_scraper file) = [''jazz'']"
  by (simp add: example_scraper_def new_scraper_def) code_simp

lemma example_run_terms:
  "run_search_terms (term_variants (example_scraper file)) (search_terms (example_scraper file)) =
   Some [''jazz'']"
  by (simp add: example_scraper_fields example_scraper_terms run_search_terms_def)

lemma example_scraper_update:
  "(example_scraper f)\<lparr>search_terms := [''jazz'']\<rparr> = example_scraper f"
  using example_scraper_terms [of f] by (cases "example_scraper f") auto

lemma example_elements: "find_event_elements example_page_soup = [example_article]"
  by code_simp

lemma example_next: "next_page_url self example_page_soup = None"
  by (simp add: next_page_url_def) code_simp

lemma example_url_not_empty: "example_url \<noteq> []"
  by (simp add: example_url_def)

lemma example_lib_fields:
  "http_get example_lib example_url = Some example_page"
  "html_parser example_lib example_page = example_page_soup"
  "to_html example_lib example_article = example_html"
  "disk example_lib = Written"
  by (simp_all add: example_lib_def example_markup_def example_page_def)

lemma example_found_event:
  "process_event example_lib (example_scraper file) now example_html = Some (example_found now)"
  by (simp add: example_event example_found_def)

lemma example_page_scraped:
  "scrape_page example_lib example_url example_page (example_scraper Missing, fresh_run) =
     ((example_scraper Missing)\<lparr>processed_events :=
         [event_id (example_found (clock example_lib 0)) \<mapsto>
            \<lparr>processed_at = clock example_lib 1, notified = False, notified_at = None\<rparr>]\<rparr>,
      \<lparr>new_events = [example_found (clock example_lib 0)], event_count = 1, ticks = 2,
       pages_log = [example_url]\<rparr>)"
  by (simp add: scrape_page_def logged_def example_lib_fields example_elements
      process_element_def fresh_run_def example_found_event example_scraper_fields
      load_processed_events_def Let_def)

lemma example_walk:
  "walk example_lib example_url 0 (example_scraper Missing, fresh_run) =
     (None, scrape_page example_lib example_url example_page (example_scraper Missing, fresh_run))"
  by (rule walk_final)
     (simp_all add: example_url_not_empty example_scraper_fields example_lib_fields example_next)

lemma example_first_run:
  "find_new_events example_lib (example_scraper Missing) Missing =
     \<lparr>returned = [example_found (clock example_lib 0)],
      scraper_after = (example_scraper Missing)\<lparr>processed_events :=
         [event_id (example_found (clock example_lib 0)) \<mapsto>
            \<lparr>processed_at = clock example_lib 1, notified = False, notified_at = None\<rparr>]\<rparr>,
      file_after = Contents
         [event_id (example_found (clock example_lib 0)) \<mapsto>
            \<lparr>processed_at = clock example_lib 1, notified = False, notified_at = None\<rparr>],
      requested = [example_url]\<rparr>"
  by (subst find_new_events_completed [OF example_run_terms])
     (simp_all add: example_scraper_update example_scraper_fields example_walk example_page_scraped
        example_lib_fields save_processed_events_def)

theorem second_run_finds_nothing_new_witness:
  "returned (find_new_events example_lib (example_scraper Missing) Missing) =
     [example_found ''2024-01-01 10:00:00''] \<and>
   file_after (find_new_events example_lib (example_scraper Missing) Missing) =
     Contents (processed_events (scraper_after (find_new_events example_lib (example_scraper Missing) Missing))) \<and>
   returned (find_new_events later_lib
      (example_scraper (file_after (find_new_events example_lib (example_scraper Missing) Missing)))
      (file_after (find_new_events example_lib (example_scraper Missing) Missing))) = []"
proof -
  have persisted:
    "file_after (find_new_events example_lib (example_scraper Missing) Missing) =
     Contents (processed_events (scraper_after (find_new_events example_lib (example_scraper Missing) Missing)))"
    by (simp add: example_first_run)
  have found: "returned (find_new_events example_lib (example_scraper Missing) Missing) =
     [example_found ''2024-01-01 10:00:00'']"
    by (simp add: example_first_run) (simp add: example_lib_def)
  have same: "http_get later_lib = http_get example_lib" "html_parser later_lib = html_parser example_lib"
    "to_html later_lib = to_html example_lib" "md5_hexdigest later_lib = md5_hexdigest example_lib"
    by (simp_all add: later_lib_def)
  from second_run_finds_nothing_new
         [where lib = example_lib and later = later_lib and page_url = example_url and pages = 5
            and terms = "[''jazz'']" and exact = True and tv = "[]" and stored = Missing,
          folded example_scraper_def, OF refl persisted same]
       persisted found
  show ?thesis by simp
qed







section \<open>The matching terms of the events of a run\<close>

lemma process_event_terms:
  assumes "process_event lib self now event_html = Some ev"
  shows "matching_terms ev \<noteq> [] \<and> set (matching_terms ev) \<subseteq> set (search_terms self)"
  using process_event_Some(3,4) [OF assms] find_matching_terms_subset
  by (simp add: fragment_terms_def)

lemma process_element_well_matched:
  assumes "well_matched terms s"
  shows "well_matched terms (process_element lib e s)"
proof (cases s rule: process_element_cases [of lib _ e])
  case skipped
  with assms show ?thesis by simp
next
  case (known ev)
  with assms show ?thesis by (simp add: well_matched_def)
next
  case (new ev p)
  from process_event_terms [OF new(1)] assms
  have "matching_terms ev \<noteq> [] \<and> set (matching_terms ev) \<subseteq> set terms"
    by (simp add: well_matched_def)
  with assms new show ?thesis by (auto simp: well_matched_def)
qed

lemma walk_well_matched: "well_matched terms s \<Longrightarrow> well_matched terms (snd (walk lib u n s))"
  by (rule walk_keeps [where P = "well_matched terms"])
     (simp_all add: process_element_well_matched, simp add: well_matched_def logged_def)

lemma returned_events_well_matched:
  assumes "run_search_terms (term_variants self) (search_terms self) = Some terms"
    and "found \<in> set (returned (find_new_events lib self stored))"
  shows "matching_terms found \<noteq> [] \<and> set (matching_terms found) \<subseteq> set terms"
proof -
  let ?w = "walk lib (url self) 0 (self\<lparr>search_terms := terms\<rparr>, fresh_run)"
  have "well_matched terms (self\<lparr>search_terms := terms\<rparr>, fresh_run)"
    by (simp add: well_matched_def fresh_run_def)
  then have inv: "well_matched terms (snd ?w)" by (rule walk_well_matched)
  show ?thesis
  proof (cases "fst ?w = None")
    case True
    with assms(2) have "found \<in> set (new_events (snd (snd ?w)))"
      by (simp add: find_new_events_completed [OF assms(1)])
    with inv show ?thesis by (simp add: well_matched_def)
  next
    case False
    with assms(2) show ?thesis by (simp add: find_new_events_aborted [OF assms(1)])
  qed
qed

text \<open>
  Claim C8. The matching terms of an event are not empty and are all search terms of the
  scraper; an element with no matching term gives no event; and every event that a run
  returns has matching terms, all among the terms in force during the run.
\<close>

theorem matched_event_has_terms_of_the_term_set:
  "(process_event lib self now event_html = Some ev \<longrightarrow>
      matching_terms ev \<noteq> [] \<and> set (matching_terms ev) \<subseteq> set (search_terms self)) \<and>
   (fragment_terms lib self event_html = [] \<longrightarrow> process_event lib self now event_html = None) \<and>
   (run_search_terms (term_variants self) (search_terms self) = Some terms \<longrightarrow>
      (\<forall>found \<in> set (returned (find_new_events lib self stored)).
          matching_terms found \<noteq> [] \<and> set (matching_terms found) \<subseteq> set terms))"
proof (intro conjI impI ballI)
  assume "process_event lib self now event_html = Some ev"
  from process_event_terms [OF this]
  show "matching_terms ev \<noteq> []" and "set (matching_terms ev) \<subseteq> set (search_terms self)"
    by simp_all
next
  assume "fragment_terms lib self event_html = []"
  then show "process_event lib self now event_html = None"
    by (simp add: process_event_eq split: sum.split)
next
  fix found
  assume "run_search_terms (term_variants self) (search_terms self) = Some terms"
    and "found \<in> set (returned (find_new_events lib self stored))"
  from returned_events_well_matched [OF this]
  show "matching_terms found \<noteq> []" and "set (matching_terms found) \<subseteq> set terms"
    by simp_all
qed

theorem matched_event_has_terms_of_the_term_set_witness:
  "process_event example_lib (example_scraper Missing) ''2024-01-01 10:00:00'' example_html =
     Some (example_found ''2024-01-01 10:00:00'') \<and>
   matching_terms (example_found ''2024-01-01 10:00:00'') = [''jazz''] \<and>
   search_terms (example_scraper Missing) = [''jazz''] \<and>
   fragment_terms example_lib ((example_scraper Missing)\<lparr>search_terms := [''yoga'']\<rparr>) example_html = [] \<and>
   process_event example_lib ((example_scraper Missing)\<lparr>search_terms := [''yoga'']\<rparr>)
     ''2024-01-01 10:00:00'' example_html = None \<and>
   run_search_terms (term_variants (example_scraper Missing)) (search_terms (example_scraper Missing)) =
     Some [''jazz''] \<and>
   returned (find_new_events example_lib (example_scraper Missing) Missing) =
     [example_found ''2024-01-01 10:00:00''] \<and>
   matching_terms (example_found ''2024-01-01 10:00:00'') \<noteq> [] \<and>
   set (matching_terms (example_found ''2024-01-01 10:00:00'')) \<subseteq> set [''jazz'']"
proof -
  have ev: "process_event example_lib (example_scraper Missing) ''2024-01-01 10:00:00'' example_html =
     Some (example_found ''2024-01-01 10:00:00'')"
    by (rule example_found_event)
  have terms: "matching_terms (example_found ''2024-01-01 10:00:00'') = [''jazz'']"
    by (simp add: example_found_def)
  have no_terms:
    "fragment_terms example_lib ((example_scraper Missing)\<lparr>search_terms := [''yoga'']\<rparr>) example_html = []"
    by (simp add: fragment_terms_def example_scraper_def new_scraper_def) code_simp
  have run: "returned (find_new_events example_lib (example_scraper Missing) Missing) =
     [example_found ''2024-01-01 10:00:00'']"
    by (simp add: example_first_run) (simp add: example_lib_def)
  note c8 = matched_event_has_terms_of_the_term_set
      [of example_lib "example_scraper Missing" "''2024-01-01 10:00:00''" example_html
          "example_found ''2024-01-01 10:00:00''" "[''jazz'']" Missing]
  note c8' = matched_event_has_terms_of_the_term_set
      [of example_lib "(example_scraper Missing)\<lparr>search_terms := [''yoga'']\<rparr>"
          "''2024-01-01 10:00:00''" example_html]
  note dropped = c8' [THEN conjunct2, THEN conjunct1, THEN mp, OF no_terms]
  have returned: "example_found ''2024-01-01 10:00:00'' \<in>
      set (returned (find_new_events example_lib (example_scraper Missing) Missing))"
    by (simp add: run)
  note all = c8 [THEN conjunct2, THEN conjunct2, THEN mp, OF example_run_terms, THEN bspec,
                 OF returned]
  note one = c8 [THEN conjunct1, THEN mp, OF ev]
  show ?thesis
    by (intro conjI ev terms example_scraper_terms no_terms dropped example_run_terms run
        all [THEN conjunct1] all [THEN conjunct2])
qed

section \<open>What a match of a pattern with a word in it looks like\<close>

lemma plain_cases:
  "plain c \<longleftrightarrow> c \<in> set ''0123456789./-''"
  by (auto simp: plain_def is_digit_def date_separator_def)

lemma lower_char_cases: "lower_char c = c \<or> (c \<in> set upper_letters \<and> lower_char c \<in> set lower_letters)"
proof (cases "map_of (zip upper_letters lower_letters) c")
  case None
  then show ?thesis by (simp add: lower_char_def)
next
  case (Some l)
  then have "(c, l) \<in> set (zip upper_letters lower_letters)" by (rule map_of_SomeD)
  then have "c \<in> set upper_letters" "l \<in> set lower_letters"
    by (auto dest: set_zip_leftD set_zip_rightD)
  with Some show ?thesis by (simp add: lower_char_def)
qed

lemma upper_char_cases: "upper_char c = c \<or> (c \<in> set lower_letters \<and> upper_char c \<in> set upper_letters)"
proof (cases "map_of (zip lower_letters upper_letters) c")
  case None
  then show ?thesis by (simp add: upper_char_def)
next
  case (Some l)
  then have "(c, l) \<in> set (zip lower_letters upper_letters)" by (rule map_of_SomeD)
  then have "c \<in> set lower_letters" "l \<in> set upper_letters"
    by (auto dest: set_zip_leftD set_zip_rightD)
  with Some show ?thesis by (simp add: upper_char_def)
qed

lemma plain_chars_bit: "\<forall>c \<in> set ''0123456789./-''. \<not> digit6 c"
  by code_simp

lemma lower_letters_bit: "\<forall>c \<in> set lower_letters. digit6 c"
  by code_simp

lemma upper_letters_bit: "\<forall>c \<in> set upper_letters. digit6 c"
  by code_simp

lemma plain_bit: "plain c \<Longrightarrow> \<not> digit6 c"
  using plain_chars_bit unfolding plain_cases by blast

lemma letter_bit: "c \<in> set lower_letters \<or> c \<in> set upper_letters \<Longrightarrow> digit6 c"
  using lower_letters_bit upper_letters_bit by blast

lemma plain_not_letter: "plain c \<Longrightarrow> c \<notin> set lower_letters \<and> c \<notin> set upper_letters"
  using plain_bit [of c] letter_bit [of c] by blast

lemma plain_lower_char: "plain (lower_char c) \<Longrightarrow> plain c"
  using lower_char_cases [of c] plain_not_letter [of "lower_char c"] by auto

lemma plain_upper_char: "plain (upper_char c) \<Longrightarrow> plain c"
  using upper_char_cases [of c] plain_not_letter [of "upper_char c"] by auto

lemma plain_matches_itself:
  assumes "plain c" and "lower_char c = lower_char l" and "l \<notin> set upper_letters"
  shows "plain l"
proof -
  have "lower_char c = c" using lower_char_cases [of c] plain_not_letter [OF assms(1)] by auto
  moreover have "lower_char l = l" using lower_char_cases [of l] assms(3) by auto
  ultimately have "c = l" using assms(2) by metis
  with assms(1) show ?thesis by blast
qed

lemma lit_match_consumes:
  "lit_match s p = Some q \<Longrightarrow>
   \<exists>w. snd p = w @ snd q \<and> list_all2 (\<lambda>c l. lower_char c = lower_char l) w s"
proof (induction s p rule: lit_match.induct)
  case (1 p)
  then show ?case by simp
next
  case (2 l ls prev)
  then show ?case by simp
next
  case (3 l ls prev c cs)
  show ?case
  proof (cases "lower_char c = lower_char l")
    case True
    with "3.prems" have "lit_match ls (Some c, cs) = Some q" by simp
    from "3.IH" [OF True this] obtain w where
      "cs = w @ snd q" "list_all2 (\<lambda>c l. lower_char c = lower_char l) w ls" by auto
    with True have "c # cs = (c # w) @ snd q \<and>
        list_all2 (\<lambda>c l. lower_char c = lower_char l) (c # w) (l # ls)" by simp
    then show ?thesis by (metis snd_conv)
  next
    case False
    with "3.prems" show ?thesis by simp
  qed
qed

lemma class_runs_consume: "q \<in> set (class_runs k n p) \<Longrightarrow> \<exists>w. snd p = w @ snd q"
proof (induction k n p rule: class_runs.induct)
  case (1 k p)
  then show ?case by simp
next
  case (2 k n prev)
  then show ?case by simp
next
  case (3 k n prev c cs)
  show ?case
  proof (cases "q = (prev, c # cs)")
    case True
    then show ?thesis by simp
  next
    case False
    with "3.prems" have "in_class k c" and "q \<in> set (class_runs k n (Some c, cs))"
      by (auto split: if_splits)
    from "3.IH" [OF this] obtain w where "cs = w @ snd q" by auto
    then have "c # cs = (c # w) @ snd q" by simp
    then show ?thesis by (metis snd_conv)
  qed
qed

lemma rx_match_consumes:
  "q \<in> set (rx_match r p) \<Longrightarrow>
   \<exists>w. snd p = w @ snd q \<and> (has_word r \<longrightarrow> (\<exists>c \<in> set w. \<not> plain c))"
proof (induction r p arbitrary: q rule: rx_match.induct)
  case (1 s p)
  then have m: "lit_match s p = Some q" by (auto split: option.splits)
  from lit_match_consumes [OF this] obtain w where
    w: "snd p = w @ snd q" "list_all2 (\<lambda>c l. lower_char c = lower_char l) w s" by auto
  have "\<exists>c \<in> set w. \<not> plain c" if "has_word (Lit s)"
  proof -
    from that obtain l where l: "l \<in> set s" "\<not> plain l" "l \<notin> set upper_letters" by auto
    from l(1) obtain i where i: "i < length s" "s ! i = l"
      by (auto simp: in_set_conv_nth)
    from w(2) i have "w ! i \<in> set w" "lower_char (w ! i) = lower_char l"
      by (auto simp: list_all2_conv_all_nth)
    then obtain c where "c \<in> set w" "lower_char c = lower_char l" by blast
    with l plain_matches_itself [of c l] show ?thesis by blast
  qed
  with w(1) show ?case by blast
next
  case (2 k lo hi p)
  then have "q \<in> set (class_runs k hi p)" by (auto dest: in_set_dropD)
  from class_runs_consume [OF this] show ?case by simp
next
  case (3 k p)
  then have "q \<in> set (class_runs k (length (snd p)) p)" by (auto dest: in_set_dropD)
  from class_runs_consume [OF this] show ?case by simp
next
  case (4 p)
  then show ?case by (auto split: if_splits)
next
  case (5 p)
  then show ?case by simp
next
  case (6 r rs p)
  from "6.prems" obtain m where m: "m \<in> set (rx_match r p)" and q: "q \<in> set (rx_match (Cat rs) m)"
    by auto
  from "6.IH"(1) [OF m] obtain w1 where
    w1: "snd p = w1 @ snd m" "has_word r \<longrightarrow> (\<exists>c \<in> set w1. \<not> plain c)" by auto
  from "6.IH"(2) [OF m q] obtain w2 where
    w2: "snd m = w2 @ snd q" "has_word (Cat rs) \<longrightarrow> (\<exists>c \<in> set w2. \<not> plain c)" by auto
  have "snd p = (w1 @ w2) @ snd q" using w1(1) w2(1) by simp
  moreover have "has_word (Cat (r # rs)) \<longrightarrow> (\<exists>c \<in> set (w1 @ w2). \<not> plain c)"
    using w1(2) w2(2) by auto
  ultimately show ?case by blast
next
  case (7 rs p)
  from "7.prems" obtain r where r: "r \<in> set rs" "q \<in> set (rx_match r p)" by auto
  from "7.IH" [OF r] obtain w where
    "snd p = w @ snd q" "has_word r \<longrightarrow> (\<exists>c \<in> set w. \<not> plain c)" by auto
  with r(1) show ?case by auto
next
  case (8 r p)
  show ?case
  proof (cases "q = p")
    case True
    then show ?thesis by simp
  next
    case False
    with "8.prems" have "q \<in> set (rx_match r p)" by simp
    from "8.IH" [OF this] show ?thesis by auto
  qed
qed

lemma rx_search_from_word:
  "rx_search_from r i p = Some (j, m) \<Longrightarrow> has_word r \<Longrightarrow> \<exists>c \<in> set m. \<not> plain c"
proof (induction r i p rule: rx_search_from.induct)
  case (1 r i prev)
  show ?case
  proof (cases "rx_match r (prev, [])")
    case Nil
    with "1.prems" show ?thesis by simp
  next
    case (Cons q qs)
    then have "q \<in> set (rx_match r (prev, []))" by simp
    from rx_match_consumes [OF this] "1.prems"(2) show ?thesis by auto
  qed
next
  case (2 r i prev c cs)
  show ?case
  proof (cases "rx_match r (prev, c # cs)")
    case Nil
    with "2.prems" have "rx_search_from r (Suc i) (Some c, cs) = Some (j, m)" by simp
    from "2.IH" [OF Nil this "2.prems"(2)] show ?thesis .
  next
    case (Cons q qs)
    then have "q \<in> set (rx_match r (prev, c # cs))" by simp
    from rx_match_consumes [OF this] "2.prems"(2) obtain w where
      w: "c # cs = w @ snd q" "\<exists>x \<in> set w. \<not> plain x" by auto
    from "2.prems"(1) Cons have "m = take (length (c # cs) - length (snd q)) (c # cs)" by simp
    also have "\<dots> = w" unfolding w(1) by simp
    finally show ?thesis using w(2) by simp
  qed
qed

lemma rx_search_word:
  "rx_search r s = Some (j, m) \<Longrightarrow> has_word r \<Longrightarrow> \<exists>c \<in> set m. \<not> plain c"
  unfolding rx_search_def by (rule rx_search_from_word)

lemma first_match_word:
  "first_match patterns s = Some m \<Longrightarrow> \<forall>r \<in> set patterns. has_word r \<Longrightarrow> \<exists>c \<in> set m. \<not> plain c"
proof (induction patterns)
  case Nil
  then show ?case by simp
next
  case (Cons r rs)
  show ?case
  proof (cases "rx_search r s")
    case None
    with Cons show ?thesis by simp
  next
    case (Some found)
    obtain j m' where found: "found = (j, m')" by (cases found)
    with Cons.prems(1) Some have "m' = m" by simp
    with Some found Cons.prems(2) show ?thesis by (auto dest: rx_search_word)
  qed
qed

lemma day_patterns_word: "\<forall>r \<in> set day_patterns. has_word r"
  by code_simp

lemma date_patterns_word: "\<forall>r \<in> set date_patterns. has_word r"
  by code_simp

lemma month_pattern_word: "has_word month_pattern"
  by code_simp

lemma capitalize_word:
  assumes "\<exists>c \<in> set m. \<not> plain c"
  shows "\<exists>c \<in> set (capitalize m). \<not> plain c"
proof (cases m)
  case Nil
  with assms show ?thesis by simp
next
  case (Cons x xs)
  with assms have "\<not> plain x \<or> (\<exists>c \<in> set xs. \<not> plain c)" by simp
  then show ?thesis
  proof
    assume "\<not> plain x"
    then have "\<not> plain (upper_char x)" using plain_upper_char by blast
    with Cons show ?thesis by simp
  next
    assume "\<exists>c \<in> set xs. \<not> plain c"
    then obtain c where "c \<in> set xs" "\<not> plain c" by blast
    then have "lower_char c \<in> set (lower xs)" "\<not> plain (lower_char c)"
      using plain_lower_char by (auto simp: lower_def)
    with Cons show ?thesis by auto
  qed
qed

lemma nearby_day_has_month:
  "nearby_day numbers month content_lower month_idx context_start context_end = Inr (Some d) \<Longrightarrow>
   set (capitalize month) \<subseteq> set d"
  by (induction numbers) (auto split: sum.splits if_splits)

lemma month_fallback_word:
  assumes "month_fallback content content_lower = Inr d"
  shows "d = [] \<or> (\<exists>c \<in> set d. \<not> plain c)"
proof (cases "rx_search month_pattern content_lower")
  case None
  with assms show ?thesis by (simp add: month_fallback_def)
next
  case (Some found)
  obtain start month where found: "found = (start, month)" by (cases found)
  from rx_search_word [OF Some [unfolded found] month_pattern_word]
  have "\<exists>c \<in> set (capitalize month). \<not> plain c" by (rule capitalize_word)
  moreover have "set (capitalize month) \<subseteq> set d"
    using assms Some found nearby_day_has_month
    by (auto simp: month_fallback_def Let_def split: sum.splits option.splits)
  ultimately show ?thesis by blast
qed

lemma extract_date_numeric:
  assumes "extract_date event_content = Inr date_str" and "date_str \<noteq> []"
    and "\<forall>c \<in> set date_str. plain c"
  shows "numeric_date numeric_patterns (strip (replace ''&nbsp;'' '' '' event_content)) =
         Inr (Some date_str)"
proof -
  let ?content = "strip (replace ''&nbsp;'' '' '' event_content)"
  have day: "first_match day_patterns (lower ?content) = None"
  proof (rule ccontr)
    assume "first_match day_patterns (lower ?content) \<noteq> None"
    then obtain m where m: "first_match day_patterns (lower ?content) = Some m" by auto
    with assms(1) have "date_str = capitalize m" by (simp add: extract_date_def Let_def)
    moreover from first_match_word [OF m day_patterns_word]
    have "\<exists>c \<in> set (capitalize m). \<not> plain c" by (rule capitalize_word)
    ultimately show False using assms(3) by blast
  qed
  have dat: "first_match date_patterns (lower ?content) = None"
  proof (rule ccontr)
    assume "first_match date_patterns (lower ?content) \<noteq> None"
    then obtain m where m: "first_match date_patterns (lower ?content) = Some m" by auto
    with assms(1) day have "date_str = capitalize m" by (simp add: extract_date_def Let_def)
    moreover from first_match_word [OF m date_patterns_word]
    have "\<exists>c \<in> set (capitalize m). \<not> plain c" by (rule capitalize_word)
    ultimately show False using assms(3) by blast
  qed
  show ?thesis
  proof (cases "numeric_date numeric_patterns ?content")
    case (Inl e)
    with assms(1) day dat show ?thesis by (simp add: extract_date_def Let_def)
  next
    case (Inr found)
    show ?thesis
    proof (cases found)
      case None
      with assms(1) day dat Inr have "month_fallback ?content (lower ?content) = Inr date_str"
        by (simp add: extract_date_def Let_def)
      from month_fallback_word [OF this] assms(2,3) show ?thesis by blast
    next
      case (Some d)
      with assms(1) day dat Inr show ?thesis by (simp add: extract_date_def Let_def)
    qed
  qed
qed

section \<open>The link\<close>

lemma find_gives_head_of_filter:
  "List.find P xs = Some a \<Longrightarrow> Q a \<Longrightarrow> \<exists>rest. filter (\<lambda>x. P x \<and> Q x) xs = a # rest"
proof (induction xs)
  case Nil
  then show ?case by simp
next
  case (Cons x xs)
  show ?case
  proof (cases "P x")
    case True
    with Cons.prems show ?thesis by simp
  next
    case False
    with Cons show ?thesis by simp
  qed
qed

lemma extract_link_first_anchor:
  assumes "find_tag ''a'' soup = Some anchor" and "attr anchor ''href'' = Some href"
  shows "extract_link is_website_event soup = href"
proof (cases is_website_event)
  case True
  from assms have "\<exists>rest. find_all_with ''a'' ''href'' soup = anchor # rest"
    unfolding find_tag_def find_all_with_def
    by (intro find_gives_head_of_filter) simp_all
  with True assms(2) show ?thesis by (auto simp: extract_link_def)
next
  case False
  with assms show ?thesis by (simp add: extract_link_def)
qed

text \<open>
  Claim C2, as the code has it. When the first anchor of an element has a root-relative
  \<^verbatim>\<open>href\<close>, the link of the event is the page URL of the scraper, without its final
  slash, followed by the \<^verbatim>\<open>href\<close>. For the page URL
  \<^verbatim>\<open>https://city.example/agenda\<close> and the \<^verbatim>\<open>href\<close> \<^verbatim>\<open>/events/42\<close> this is
  \<^verbatim>\<open>https://city.example/agenda/events/42\<close>.
\<close>

theorem root_relative_link_is_put_behind_page_url:
  assumes "process_event lib self now event_html = Some ev"
    and "find_tag ''a'' (html_parser lib event_html) = Some anchor"
    and "attr anchor ''href'' = Some href"
    and "startswith href ''/''"
  shows "link ev = (if endswith (url self) ''/'' then butlast (url self) else url self) @ href"
proof -
  have "link ev = fragment_link lib self event_html"
    by (rule process_event_Some(7) [OF assms(1)])
  also have "\<dots> = absolute_link (url self) href"
    by (simp add: fragment_link_def extract_link_first_anchor [OF assms(2,3)])
  also have "\<dots> = (if endswith (url self) ''/'' then butlast (url self) else url self) @ href"
    using assms(4) by (simp add: absolute_link_def Let_def)
  finally show ?thesis .
qed

lemma example_anchor:
  "find_tag ''a'' (html_parser example_lib example_html) =
   Some (Element ''a'' [(''href'', ''/events/42'')] [Text ''Details''])"
  by code_simp

theorem root_relative_link_is_put_behind_page_url_witness:
  "process_event example_lib (example_scraper Missing) ''2024-01-01 10:00:00'' example_html =
     Some (example_found ''2024-01-01 10:00:00'') \<and>
   find_tag ''a'' (html_parser example_lib example_html) =
     Some (Element ''a'' [(''href'', ''/events/42'')] [Text ''Details'']) \<and>
   attr (Element ''a'' [(''href'', ''/events/42'')] [Text ''Details'']) ''href'' = Some ''/events/42'' \<and>
   startswith ''/events/42'' ''/'' \<and>
   url (example_scraper Missing) = ''https://city.example/agenda'' \<and>
   link (example_found ''2024-01-01 10:00:00'') = ''https://city.example/agenda/events/42''"
proof -
  have href: "attr (Element ''a'' [(''href'', ''/events/42'')] [Text ''Details'']) ''href'' = Some ''/events/42''"
    by (simp add: attr_def)
  have root: "startswith ''/events/42'' ''/''"
    by (simp add: startswith_def)
  have page: "url (example_scraper Missing) = ''https://city.example/agenda''"
    by (simp add: example_scraper_fields example_url_def)
  from root_relative_link_is_put_behind_page_url [OF example_found_event example_anchor href root]
       example_found_event example_anchor href root page
  show ?thesis by (simp add: example_found_def)
qed

theorem root_relative_link_counterexample:
  "url (example_scraper Missing) = ''https://city.example/agenda'' \<and>
   find_tag ''a'' (html_parser example_lib example_html) =
     Some (Element ''a'' [(''href'', ''/events/42'')] [Text ''Details'']) \<and>
   map_option link
     (process_event example_lib (example_scraper Missing) ''2024-01-01 10:00:00'' example_html) =
     Some ''https://city.example/agenda/events/42'' \<and>
   ''https://city.example/agenda/events/42'' \<noteq> ''https://city.example/events/42''"
  by (simp add: example_found_event example_anchor example_scraper_fields example_url_def
      example_found_def)

section \<open>Numeric dates\<close>

lemma parts_valid_orderings:
  assumes "parts_valid parts = Inr True"
  shows "\<exists>p0 p1 rest a b. parts = p0 # p1 # rest \<and> py_int p0 = Inr a \<and> py_int p1 = Inr b \<and>
           (a \<le> 31 \<and> b \<le> 12 \<or> a \<le> 12 \<and> b \<le> 31)"
  using assms
  by (auto simp: parts_valid_def valid_day_month_def split: list.splits sum.splits)

lemma numeric_date_validated:
  "numeric_date patterns content = Inr (Some date_str) \<Longrightarrow>
   (length (split_on date_separator date_str) = 2 \<or> length (split_on date_separator date_str) = 3) \<and>
   parts_valid (split_on date_separator date_str) = Inr True"
proof (induction patterns)
  case Nil
  then show ?case by simp
next
  case (Cons pattern patterns)
  show ?case
  proof (cases "rx_search pattern content")
    case None
    with Cons show ?thesis by simp
  next
    case (Some found)
    obtain start candidate where found: "found = (start, candidate)" by (cases found)
    show ?thesis
    proof (cases "numeric_date patterns content = Inr (Some date_str)")
      case True
      then show ?thesis by (rule Cons.IH)
    next
      case False
      with Cons.prems Some found
      have "candidate = date_str \<and>
            (length (split_on date_separator candidate) = 2 \<or> length (split_on date_separator candidate) = 3) \<and>
            parts_valid (split_on date_separator candidate) = Inr True"
        by (auto simp: Let_def split: if_splits sum.splits)
      then show ?thesis by blast
    qed
  qed
qed

text \<open>
  Claim C5. A numeric date candidate is accepted only if its split on the separators has
  two or three parts and the first two parts, read as numbers, satisfy one of the two
  orderings: first at most 31 and second at most 12, or first at most 12 and second at
  most 31; and every date of digits and separators only that the extraction returns is
  such a candidate. In \<^verbatim>\<open>appelez le 04.68.29\<close> the candidate \<^verbatim>\<open>04.68.29\<close> is found, fails the
  validation, and the extracted date is the empty string.
\<close>

theorem numeric_date_candidates_are_validated:
  "(numeric_date numeric_patterns content = Inr (Some candidate) \<longrightarrow>
      (\<exists>p0 p1 rest a b.
          split_on date_separator candidate = p0 # p1 # rest \<and> length rest \<le> 1 \<and>
          py_int p0 = Inr a \<and> py_int p1 = Inr b \<and>
          (a \<le> 31 \<and> b \<le> 12 \<or> a \<le> 12 \<and> b \<le> 31))) \<and>
   (extract_date event_content = Inr date_str \<and> date_str \<noteq> [] \<and>
    (\<forall>c \<in> set date_str. is_digit c \<or> date_separator c) \<longrightarrow>
      (\<exists>p0 p1 rest a b.
          split_on date_separator date_str = p0 # p1 # rest \<and> length rest \<le> 1 \<and>
          py_int p0 = Inr a \<and> py_int p1 = Inr b \<and>
          (a \<le> 31 \<and> b \<le> 12 \<or> a \<le> 12 \<and> b \<le> 31))) \<and>
   rx_search (hd numeric_patterns) ''appelez le 04.68.29'' = Some (11, ''04.68.29'') \<and>
   parts_valid (split_on date_separator ''04.68.29'') = Inr False \<and>
   extract_date ''appelez le 04.68.29'' = Inr []"
proof -
  have validated:
    "\<exists>p0 p1 rest a b.
        split_on date_separator d = p0 # p1 # rest \<and> length rest \<le> 1 \<and>
        py_int p0 = Inr a \<and> py_int p1 = Inr b \<and>
        (a \<le> 31 \<and> b \<le> 12 \<or> a \<le> 12 \<and> b \<le> 31)"
    if "numeric_date numeric_patterns c = Inr (Some d)" for c d
  proof -
    from numeric_date_validated [OF that]
    have len: "length (split_on date_separator d) = 2 \<or> length (split_on date_separator d) = 3"
      and valid: "parts_valid (split_on date_separator d) = Inr True" by simp_all
    from parts_valid_orderings [OF valid] obtain p0 p1 rest a b where
      parts: "split_on date_separator d = p0 # p1 # rest" and
      nums: "py_int p0 = Inr a" "py_int p1 = Inr b" "a \<le> 31 \<and> b \<le> 12 \<or> a \<le> 12 \<and> b \<le> 31"
      by blast
    from len parts have "length rest \<le> 1" by auto
    with parts nums show ?thesis by blast
  qed
  have whole:
    "\<exists>p0 p1 rest a b.
        split_on date_separator date_str = p0 # p1 # rest \<and> length rest \<le> 1 \<and>
        py_int p0 = Inr a \<and> py_int p1 = Inr b \<and>
        (a \<le> 31 \<and> b \<le> 12 \<or> a \<le> 12 \<and> b \<le> 31)"
    if "extract_date event_content = Inr date_str \<and> date_str \<noteq> [] \<and>
        (\<forall>c \<in> set date_str. is_digit c \<or> date_separator c)"
  proof -
    from that have "numeric_date numeric_patterns (strip (replace ''&nbsp;'' '' '' event_content)) =
        Inr (Some date_str)"
      by (intro extract_date_numeric) (simp_all add: plain_def)
    then show ?thesis by (rule validated)
  qed
  have found: "rx_search (hd numeric_patterns) ''appelez le 04.68.29'' = Some (11, ''04.68.29'')"
    by code_simp
  have rejected: "parts_valid (split_on date_separator ''04.68.29'') = Inr False"
    by code_simp
  have no_date: "extract_date ''appelez le 04.68.29'' = Inr []"
    by code_simp
  show ?thesis
  proof (intro conjI impI)
    assume "numeric_date numeric_patterns content = Inr (Some candidate)"
    then show "\<exists>p0 p1 rest a b.
        split_on date_separator candidate = p0 # p1 # rest \<and> length rest \<le> 1 \<and>
        py_int p0 = Inr a \<and> py_int p1 = Inr b \<and>
        (a \<le> 31 \<and> b \<le> 12 \<or> a \<le> 12 \<and> b \<le> 31)"
      by (rule validated)
  next
    assume "extract_date event_content = Inr date_str \<and> date_str \<noteq> [] \<and>
        (\<forall>c \<in> set date_str. is_digit c \<or> date_separator c)"
    then show "\<exists>p0 p1 rest a b.
        split_on date_separator date_str = p0 # p1 # rest \<and> length rest \<le> 1 \<and>
        py_int p0 = Inr a \<and> py_int p1 = Inr b \<and>
        (a \<le> 31 \<and> b \<le> 12 \<or> a \<le> 12 \<and> b \<le> 31)"
      by (rule whole)
  next
    show "rx_search (hd numeric_patterns) ''appelez le 04.68.29'' = Some (11, ''04.68.29'')"
      by (rule found)
  next
    show "parts_valid (split_on date_separator ''04.68.29'') = Inr False"
      by (rule rejected)
  next
    show "extract_date ''appelez le 04.68.29'' = Inr []"
      by (rule no_date)
  qed
qed

theorem numeric_date_candidates_are_validated_witness:
  "numeric_date numeric_patterns ''le 12.05.2024 en ville'' = Inr (Some ''12.05.2024'') \<and>
   extract_date ''le 12.05.2024 en ville'' = Inr ''12.05.2024'' \<and> ''12.05.2024'' \<noteq> [] \<and>
   list_all (\<lambda>c. is_digit c \<or> date_separator c) ''12.05.2024'' \<and>
   split_on date_separator ''12.05.2024'' = [''12'', ''05'', ''2024''] \<and>
   py_int ''12'' = Inr 12 \<and> py_int ''05'' = Inr 5 \<and>
   (\<exists>p0 p1 rest a b.
       split_on date_separator ''12.05.2024'' = p0 # p1 # rest \<and> length rest \<le> 1 \<and>
       py_int p0 = Inr a \<and> py_int p1 = Inr b \<and>
       (a \<le> 31 \<and> b \<le> 12 \<or> a \<le> 12 \<and> b \<le> 31))"
proof -
  have found: "numeric_date numeric_patterns ''le 12.05.2024 en ville'' = Inr (Some ''12.05.2024'')"
    by code_simp
  have whole: "extract_date ''le 12.05.2024 en ville'' = Inr ''12.05.2024''"
    by code_simp
  have digits: "list_all (\<lambda>c. is_digit c \<or> date_separator c) ''12.05.2024''"
    by code_simp
  then have numeric: "\<forall>c \<in> set ''12.05.2024''. is_digit c \<or> date_separator c"
    unfolding list_all_iff .
  have parts: "split_on date_separator ''12.05.2024'' = [''12'', ''05'', ''2024'']"
    by code_simp
  have nums: "py_int ''12'' = Inr 12" "py_int ''05'' = Inr 5"
    by code_simp+
  have nonempty: "''12.05.2024'' \<noteq> []"
    by simp
  note c5 = numeric_date_candidates_are_validated
      [of "''le 12.05.2024 en ville''" "''12.05.2024''" "''le 12.05.2024 en ville''" "''12.05.2024''"]
  note first = c5 [THEN conjunct1, THEN mp, OF found]
  note second = c5 [THEN conjunct2, THEN conjunct1, THEN mp,
                    OF conjI [OF whole conjI [OF nonempty numeric]]]
  show ?thesis
    by (intro conjI found whole nonempty digits parts nums second)
qed

section \<open>The identifier\<close>

theorem event_id_is_digest_of_display_title_date_link_witness:
  "process_event example_lib (example_scraper Missing) ''2024-01-01 10:00:00'' example_html =
     Some (example_found ''2024-01-01 10:00:00'') \<and>
   title (example_found ''2024-01-01 10:00:00'') = title (example_found ''2024-01-02 10:00:00'') \<and>
   date (example_found ''2024-01-01 10:00:00'') = date (example_found ''2024-01-02 10:00:00'') \<and>
   link (example_found ''2024-01-01 10:00:00'') = link (example_found ''2024-01-02 10:00:00'') \<and>
   generate_event_id example_lib (example_found ''2024-01-01 10:00:00'') =
     generate_event_id example_lib (example_found ''2024-01-02 10:00:00'') \<and>
   event_id (example_found ''2024-01-01 10:00:00'') =
     md5_hexdigest example_lib (''jazz'' @ ''-'' @ [] @ ''-'' @ ''https://city.example/agenda/events/42'') \<and>
   title (example_found ''2024-01-01 10:00:00'') = ''jazz'' \<and>
   hd (fragment_terms example_lib (example_scraper Missing) example_html) = ''jazz'' \<and>
   original_title (example_found ''2024-01-01 10:00:00'') = ''Concert Jazz''"
proof -
  let ?e1 = "example_found ''2024-01-01 10:00:00''" and ?e2 = "example_found ''2024-01-02 10:00:00''"
  note c7 = event_id_is_digest_of_display_title_date_link
              [of example_lib ?e1 ?e1 ?e2 "example_scraper Missing" "''2024-01-01 10:00:00''"
                  example_html ?e1]
  have ev: "process_event example_lib (example_scraper Missing) ''2024-01-01 10:00:00'' example_html =
            Some ?e1"
    by (rule example_found_event)
  have t: "title ?e1 = title ?e2" and d: "date ?e1 = date ?e2" and l: "link ?e1 = link ?e2"
    by (simp_all add: example_found_def)
  from c7 t d l have same: "generate_event_id example_lib ?e1 = generate_event_id example_lib ?e2"
    by blast
  from c7 ev have "event_id ?e1 = md5_hexdigest example_lib (title ?e1 @ ''-'' @ date ?e1 @ ''-'' @ link ?e1)"
    by blast
  then have digest: "event_id ?e1 =
      md5_hexdigest example_lib (''jazz'' @ ''-'' @ [] @ ''-'' @ ''https://city.example/agenda/events/42'')"
    by (simp add: example_found_def)
  have shown: "title ?e1 = ''jazz''" and original: "original_title ?e1 = ''Concert Jazz''"
    by (simp_all add: example_found_def)
  have first: "hd (fragment_terms example_lib (example_scraper Missing) example_html) = ''jazz''"
    by (simp add: example_terms)
  show ?thesis
    by (intro conjI ev t d l same digest shown first original)
qed

section \<open>The title\<close>

lemma title_elem_website: "title_elem True soup = first_success website_title_order soup"
  by (simp add: title_elem_def website_title_order_def split: option.split)

lemma title_elem_other:
  "find_tag ''.event-title'' soup = None \<Longrightarrow>
   title_elem False soup = first_success other_title_order soup"
  by (simp add: title_elem_def other_title_order_def split: option.split)

text \<open>
  Claim C6, as the code has it. The title of an element whose HTML contains
  \<^verbatim>\<open>class="event"\<close> is the text of the first \<^verbatim>\<open>h2\<close>, else of the first
  \<^verbatim>\<open>strong\<close>, else of the first \<^verbatim>\<open>div\<close>, \<^verbatim>\<open>p\<close> or \<^verbatim>\<open>span\<close> with more than
  10 characters of text; the title of any other element is the text of the first
  \<^verbatim>\<open>h2\<close>, else \<^verbatim>\<open>h3\<close>, else \<^verbatim>\<open>h4\<close>, else \<^verbatim>\<open>strong\<close>, else of the first
  \<^verbatim>\<open>p\<close>, \<^verbatim>\<open>div\<close> or \<^verbatim>\<open>span\<close> whose text is not blank. Failing all of these it is
  the first line of all the text, cut at 100 characters. An element with an empty title
  gives no event. The second order is stated for the trees that have no element of the
  name \<^verbatim>\<open>.event-title\<close>, as the trees read from markup are, where the name of an
  element begins with a letter.
\<close>

theorem title_follows_the_order_of_its_kind:
  "(contains event_html class_event_marker \<or>
    find_tag ''.event-title'' (html_parser lib event_html) = None \<longrightarrow>
    fragment_title lib event_html =
     (case first_success
             (if contains event_html class_event_marker then website_title_order
              else other_title_order)
             (html_parser lib event_html) of
        Some elem \<Rightarrow> strip (node_text elem)
      | None \<Rightarrow>
          take 100 (takeWhile (\<lambda>c. c \<noteq> newline) (strip (get_text (html_parser lib event_html)))))) \<and>
   (fragment_title lib event_html = [] \<longrightarrow> process_event lib self now event_html = None)"
proof (intro conjI impI)
  assume "contains event_html class_event_marker \<or>
    find_tag ''.event-title'' (html_parser lib event_html) = None"
  then show "fragment_title lib event_html =
     (case first_success
             (if contains event_html class_event_marker then website_title_order
              else other_title_order)
             (html_parser lib event_html) of
        Some elem \<Rightarrow> strip (node_text elem)
      | None \<Rightarrow>
          take 100 (takeWhile (\<lambda>c. c \<noteq> newline) (strip (get_text (html_parser lib event_html)))))"
    by (cases "contains event_html class_event_marker")
       (simp_all add: fragment_title_def extract_title_def title_elem_website title_elem_other)
next
  assume "fragment_title lib event_html = []"
  then show "process_event lib self now event_html = None"
    by (simp add: process_event_eq)
qed

lemma blank_title: "fragment_title example_lib blank_html = []"
  by code_simp

lemma blank_parsed:
  "html_parser example_lib blank_html = [Element ''h2'' [] [Text ('' '' @ [CHR 0xA0])]]"
  by code_simp

lemma blank_heading:
  "first_success other_title_order [Element ''h2'' [] [Text ('' '' @ [CHR 0xA0])]] =
   Some (Element ''h2'' [] [Text ('' '' @ [CHR 0xA0])])"
  by code_simp

lemma blank_plain:
  "\<not> contains blank_html class_event_marker"
  "find_tag ''.event-title'' [Element ''h2'' [] [Text ('' '' @ [CHR 0xA0])]] = None"
  by code_simp+

theorem title_follows_the_order_of_its_kind_witness:
  "find_tag ''.event-title'' (html_parser example_lib blank_html) = None \<and>
   first_success other_title_order (html_parser example_lib blank_html) =
     Some (Element ''h2'' [] [Text ('' '' @ [CHR 0xA0])]) \<and>
   fragment_title example_lib blank_html = strip ('' '' @ [CHR 0xA0]) \<and>
   fragment_title example_lib blank_html = [] \<and>
   process_event example_lib (example_scraper Missing) ''2024-01-01 10:00:00'' blank_html = None"
proof -
  note order = title_follows_the_order_of_its_kind
      [of blank_html example_lib "example_scraper Missing" "''2024-01-01 10:00:00''"]
  have no_such_tag: "find_tag ''.event-title'' (html_parser example_lib blank_html) = None"
    by (simp only: blank_parsed blank_plain)
  have heading: "first_success other_title_order (html_parser example_lib blank_html) =
     Some (Element ''h2'' [] [Text ('' '' @ [CHR 0xA0])])"
    by (simp only: blank_parsed blank_heading)
  from order [THEN conjunct1, THEN mp, OF disjI2, OF no_such_tag]
  have "fragment_title example_lib blank_html =
     strip (node_text (Element ''h2'' [] [Text ('' '' @ [CHR 0xA0])]))"
    by (simp only: blank_plain(1) if_False heading option.case)
  then have title: "fragment_title example_lib blank_html = strip ('' '' @ [CHR 0xA0])"
    by simp
  from order [THEN conjunct2, THEN mp, OF blank_title]
  have none: "process_event example_lib (example_scraper Missing) ''2024-01-01 10:00:00'' blank_html = None" .
  show ?thesis by (intro conjI no_such_tag heading title blank_title none)
qed

text \<open>
  The claim as the specification states it fails: there are two orders, and the threshold
  of 10 characters belongs to the first only. In an element of the second kind with a
  short paragraph before a long one, the title is the short paragraph, where the order
  of the claim gives the long one.
\<close>

theorem title_order_counterexample:
  "\<not> contains two_paragraphs_html class_event_marker \<and>
   html_parser example_lib two_paragraphs_html = two_paragraphs_soup \<and>
   first_success website_title_order two_paragraphs_soup =
     Some (Element ''p'' [] [Text ''A much longer paragraph'']) \<and>
   fragment_title example_lib two_paragraphs_html = ''Hi''"
  by code_simp

section \<open>Term expansion without base terms\<close>

lemma add_variant_if_missing_mono: "set st \<subseteq> set (add_variant_if_missing v st)"
  by (auto simp: add_variant_if_missing_def)

lemma fold_add_variant_mono: "set st \<subseteq> set (fold add_variant_if_missing vs st)"
proof (induction vs arbitrary: st)
  case Nil
  show ?case by simp
next
  case (Cons v vs)
  have "set st \<subseteq> set (add_variant_if_missing v st)" by (rule add_variant_if_missing_mono)
  also have "\<dots> \<subseteq> set (fold add_variant_if_missing vs (add_variant_if_missing v st))" by (rule Cons.IH)
  finally show ?case by simp
qed

lemma fold_add_variant_covers:
  "v \<in> set vs \<Longrightarrow> strip v \<noteq> [] \<Longrightarrow> v \<in> set (fold add_variant_if_missing vs st)"
proof (induction vs arbitrary: st)
  case Nil
  then show ?case by simp
next
  case (Cons w ws)
  show ?case
  proof (cases "v = w")
    case True
    with Cons.prems have "v \<in> set (add_variant_if_missing w st)"
      by (auto simp: add_variant_if_missing_def)
    then show ?thesis using fold_add_variant_mono [of "add_variant_if_missing w st" ws] by auto
  next
    case False
    with Cons.prems have "v \<in> set ws" by simp
    from Cons.IH [OF this Cons.prems(2)] show ?thesis by simp
  qed
qed

lemma avk_mono: "set st \<subseteq> set (add_variants_of_keys tv st)"
proof (induction tv arbitrary: st)
  case Nil
  show ?case by (simp add: add_variants_of_keys_def)
next
  case (Cons kv tv)
  obtain k vs where kv: "kv = (k, vs)" by (cases kv)
  have "set st \<subseteq> set (fold add_variant_if_missing vs st)" by (rule fold_add_variant_mono)
  also have "\<dots> \<subseteq> set (add_variants_of_keys tv (fold add_variant_if_missing vs st))" by (rule Cons.IH)
  finally show ?case by (simp add: add_variants_of_keys_def kv)
qed

lemma avk_covers:
  "(k, vs) \<in> set tv \<Longrightarrow> v \<in> set vs \<Longrightarrow> strip v \<noteq> [] \<Longrightarrow> v \<in> set (add_variants_of_keys tv st)"
proof (induction tv arbitrary: st)
  case Nil
  then show ?case by simp
next
  case (Cons kv tv)
  obtain k' vs' where kv: "kv = (k', vs')" by (cases kv)
  have unfold: "add_variants_of_keys (kv # tv) st = add_variants_of_keys tv (fold add_variant_if_missing vs' st)"
    by (simp add: add_variants_of_keys_def kv)
  show ?case
  proof (cases "(k, vs) = kv")
    case True
    then have "vs' = vs" using kv by simp
    with Cons.prems have "v \<in> set (fold add_variant_if_missing vs' st)"
      by (simp add: fold_add_variant_covers)
    then show ?thesis unfolding unfold using avk_mono by blast
  next
    case False
    with Cons.prems have "(k, vs) \<in> set tv" by simp
    from Cons.IH [OF this Cons.prems(2,3)] show ?thesis unfolding unfold .
  qed
qed

lemma add_key_if_missing_mono: "set st \<subseteq> set (add_key_if_missing k st)"
  by (auto simp: add_key_if_missing_def)

lemma fold_add_key_mono: "set st \<subseteq> set (fold add_key_if_missing ks st)"
proof (induction ks arbitrary: st)
  case Nil
  show ?case by simp
next
  case (Cons k ks)
  have "set st \<subseteq> set (add_key_if_missing k st)" by (rule add_key_if_missing_mono)
  also have "\<dots> \<subseteq> set (fold add_key_if_missing ks (add_key_if_missing k st))" by (rule Cons.IH)
  finally show ?case by simp
qed

lemma fold_add_key_covers: "k \<in> set ks \<Longrightarrow> k \<in> set (fold add_key_if_missing ks st)"
proof (induction ks arbitrary: st)
  case Nil
  then show ?case by simp
next
  case (Cons a ks)
  show ?case
  proof (cases "k = a")
    case True
    have "k \<in> set (add_key_if_missing a st)" using True by (simp add: add_key_if_missing_def)
    then show ?thesis using fold_add_key_mono [of "add_key_if_missing a st" ks] by auto
  next
    case False
    with Cons.prems have "k \<in> set ks" by simp
    from Cons.IH [OF this] show ?thesis by simp
  qed
qed

lemma add_all_variants_eq:
  "add_all_variants tv st = fold add_key_if_missing (map fst tv) (add_variants_of_keys tv st)"
  by (simp add: add_all_variants_def)

lemma effective_terms_empty:
  "effective_terms [] tv = (if tv = [] then [] else add_all_variants tv [])"
proof (cases tv)
  case Nil
  then show ?thesis
    by (simp add: effective_terms_def run_search_terms_def init_search_terms_def
        add_term_variants_def normalize_search_terms_def)
next
  case (Cons kv tv')
  obtain k vs where kv: "kv = (k, vs)" by (cases kv)
  have "k \<in> set (add_all_variants tv [])"
    unfolding add_all_variants_eq using Cons kv by (intro fold_add_key_covers) simp
  then have "add_all_variants tv [] \<noteq> []" by auto
  then show ?thesis using Cons
    by (simp add: effective_terms_def run_search_terms_def init_search_terms_def
        add_term_variants_def normalize_search_terms_def)
qed

lemma fold_add_variant_from:
  "set (fold add_variant_if_missing vs st) \<subseteq> set st \<union> {v \<in> set vs. strip v \<noteq> []}"
proof (induction vs arbitrary: st)
  case Nil
  show ?case by simp
next
  case (Cons w ws)
  have "set (add_variant_if_missing w st) \<subseteq> set st \<union> {v \<in> set (w # ws). strip v \<noteq> []}"
    by (auto simp: add_variant_if_missing_def)
  with Cons.IH [of "add_variant_if_missing w st"] show ?case by auto
qed

lemma avk_from:
  "set (add_variants_of_keys tv st) \<subseteq>
   set st \<union> {v. \<exists>(key, variants) \<in> set tv. v \<in> set variants \<and> strip v \<noteq> []}"
proof (induction tv arbitrary: st)
  case Nil
  show ?case by (simp add: add_variants_of_keys_def)
next
  case (Cons kv tv)
  obtain k vs where kv: "kv = (k, vs)" by (cases kv)
  have unfold: "add_variants_of_keys (kv # tv) st = add_variants_of_keys tv (fold add_variant_if_missing vs st)"
    by (simp add: add_variants_of_keys_def kv)
  show ?case
    unfolding unfold using Cons.IH [of "fold add_variant_if_missing vs st"] fold_add_variant_from [of vs st]
    by (auto simp: kv)
qed

lemma fold_add_key_from: "set (fold add_key_if_missing ks st) \<subseteq> set st \<union> set ks"
proof (induction ks arbitrary: st)
  case Nil
  show ?case by simp
next
  case (Cons k ks)
  have "set (add_key_if_missing k st) \<subseteq> set st \<union> set (k # ks)"
    by (auto simp: add_key_if_missing_def)
  with Cons.IH [of "add_key_if_missing k st"] show ?case by auto
qed

text \<open>
  Claim C3, as the code has it. For every variant map, the effective terms of a scraper
  built without search terms contain, up to the case of the letters, every key of the map
  and every variant of every key that is not blank (a variant of white space only is
  skipped); and every effective term is a key of the map or a variant that is not blank.
\<close>

theorem expand_without_terms_covers_variants:
  "(\<forall>(key, variants) \<in> set tv.
      lower key \<in> lower ` set (effective_terms [] tv) \<and>
      (\<forall>variant \<in> set variants.
          strip variant \<noteq> [] \<longrightarrow> lower variant \<in> lower ` set (effective_terms [] tv))) \<and>
   (\<forall>t \<in> set (effective_terms [] tv).
      t \<in> fst ` set tv \<or> (\<exists>(key, variants) \<in> set tv. t \<in> set variants \<and> strip t \<noteq> []))"
proof (cases "tv = []")
  case True
  then show ?thesis by (simp add: effective_terms_empty)
next
  case False
  have eq: "effective_terms [] tv = fold add_key_if_missing (map fst tv) (add_variants_of_keys tv [])"
    using False by (simp add: effective_terms_empty add_all_variants_eq)
  have keys: "lower key \<in> lower ` set (effective_terms [] tv)" if "(key, variants) \<in> set tv" for key variants
  proof -
    have "key \<in> set (effective_terms [] tv)"
      unfolding eq using that by (intro fold_add_key_covers) force
    then show ?thesis by (rule imageI)
  qed
  have vars: "lower variant \<in> lower ` set (effective_terms [] tv)"
    if "(key, variants) \<in> set tv" "variant \<in> set variants" "strip variant \<noteq> []" for key variants variant
  proof -
    from that have "variant \<in> set (add_variants_of_keys tv [])" by (rule avk_covers)
    then have "variant \<in> set (effective_terms [] tv)"
      unfolding eq using fold_add_key_mono by blast
    then show ?thesis by (rule imageI)
  qed
  have from_map: "t \<in> fst ` set tv \<or> (\<exists>(key, variants) \<in> set tv. t \<in> set variants \<and> strip t \<noteq> [])"
    if "t \<in> set (effective_terms [] tv)" for t
  proof -
    from that have "t \<in> set (add_variants_of_keys tv []) \<union> set (map fst tv)"
      unfolding eq using fold_add_key_from by blast
    then show ?thesis using avk_from [of tv "[]"] by auto
  qed
  from keys vars from_map show ?thesis by blast
qed

theorem expand_without_terms_covers_variants_witness:
  "(''Yoga'', [''yoga doux'', ''Hatha'']) \<in> set [(''Yoga'', [''yoga doux'', ''Hatha''])] \<and>
   ''Hatha'' \<in> set [''yoga doux'', ''Hatha''] \<and> strip ''Hatha'' \<noteq> [] \<and>
   effective_terms [] [(''Yoga'', [''yoga doux'', ''Hatha''])] = [''yoga doux'', ''Hatha'', ''Yoga''] \<and>
   lower ''Yoga'' \<in> lower ` set (effective_terms [] [(''Yoga'', [''yoga doux'', ''Hatha''])]) \<and>
   lower ''Hatha'' \<in> lower ` set (effective_terms [] [(''Yoga'', [''yoga doux'', ''Hatha''])])"
proof -
  have blank: "strip ''Hatha'' \<noteq> []"
    by code_simp
  have terms: "effective_terms [] [(''Yoga'', [''yoga doux'', ''Hatha''])] =
      [''yoga doux'', ''Hatha'', ''Yoga'']"
    by code_simp
  from expand_without_terms_covers_variants [of "[(''Yoga'', [''yoga doux'', ''Hatha''])]"] blank
  have "lower ''Yoga'' \<in> lower ` set (effective_terms [] [(''Yoga'', [''yoga doux'', ''Hatha''])]) \<and>
        lower ''Hatha'' \<in> lower ` set (effective_terms [] [(''Yoga'', [''yoga doux'', ''Hatha''])])"
    by simp
  with blank terms show ?thesis by simp
qed

text \<open>
  The claim as the specification states it fails: a variant that is blank, be it a space
  or a no-break space, is left out, so that not every variant value is an effective term;
  and two of the effective terms of this map are equal up to case.
\<close>

theorem expand_without_terms_counterexample:
  "effective_terms [] [(''Jazz'', [''jazz'', '' '', [CHR 0xA0]])] = [''jazz'', ''Jazz''] \<and>
   '' '' \<in> set [''jazz'', '' '', [CHR 0xA0]] \<and>
   '' '' \<notin> set (effective_terms [] [(''Jazz'', [''jazz'', '' '', [CHR 0xA0]])]) \<and>
   lower '' '' \<notin> lower ` set (effective_terms [] [(''Jazz'', [''jazz'', '' '', [CHR 0xA0]])]) \<and>
   lower ''jazz'' = lower ''Jazz''"
  by code_simp

section \<open>The claims without a premise, on the small site\<close>

theorem exact_matching_flag_is_ignored_witness:
  "find_matching_terms True [''jazz''] ''Concert Jazz'' ''Venue details...Details'' =
   find_matching_terms False [''jazz''] ''Concert Jazz'' ''Venue details...Details'' \<and>
   process_event example_lib ((example_scraper Missing)\<lparr>exact_matching := True\<rparr>)
     ''2024-01-01 10:00:00'' example_html =
   process_event example_lib ((example_scraper Missing)\<lparr>exact_matching := False\<rparr>)
     ''2024-01-01 10:00:00'' example_html"
  by (rule exact_matching_flag_is_ignored)

theorem returned_events_have_distinct_ids_witness:
  "returned (find_new_events example_lib (example_scraper Missing) Missing) =
     [example_found ''2024-01-01 10:00:00''] \<and>
   distinct (map event_id (returned (find_new_events example_lib (example_scraper Missing) Missing)))"
proof
  show "returned (find_new_events example_lib (example_scraper Missing) Missing) =
     [example_found ''2024-01-01 10:00:00'']"
    by (simp add: example_first_run) (simp add: example_lib_def)
  show "distinct (map event_id (returned (find_new_events example_lib (example_scraper Missing) Missing)))"
    by (rule returned_events_have_distinct_ids)
qed

end
